theory Spec2Isabelle
  imports Complex_Main "HOL-Library.Word"
begin

unbundle bit_operations_syntax

section \<open>JavaScript values and 32-bit operators\<close>

text \<open>
  The sources are TypeScript.  Array reads past the end give \<open>undefined\<close>, arithmetic on
  \<open>undefined\<close> gives \<open>NaN\<close>, and the bitwise operators first convert their operands to
  32-bit integers.  Only integer-valued numbers occur in the payload codec, so a value is
  \<open>undefined\<close>, \<open>NaN\<close> or an integer.
\<close>

datatype jsval = Undefined | NaN | Num int

text \<open>\<open>ToInt32\<close>: \<open>undefined\<close> and \<open>NaN\<close> become 0, an integer wraps to 32 bits.\<close>

fun ToInt32 :: "jsval \<Rightarrow> 32 word" where
  "ToInt32 (Num n) = word_of_int n"
| "ToInt32 Undefined = 0"
| "ToInt32 NaN = 0"

text \<open>\<open>a << n\<close>, \<open>a >> n\<close>, \<open>a | b\<close>, \<open>a & b\<close>, \<open>a ^ b\<close> yield a signed 32-bit result;
  \<open>a >>> 0\<close> yields the unsigned reading.\<close>

definition js_shl :: "jsval \<Rightarrow> nat \<Rightarrow> jsval" where
  "js_shl a n = Num (sint (push_bit n (ToInt32 a)))"

definition js_sar :: "jsval \<Rightarrow> nat \<Rightarrow> jsval" where
  "js_sar a n = Num (sint (signed_drop_bit n (ToInt32 a)))"

definition js_or :: "jsval \<Rightarrow> jsval \<Rightarrow> jsval" where
  "js_or a b = Num (sint (ToInt32 a OR ToInt32 b))"

definition js_and :: "jsval \<Rightarrow> jsval \<Rightarrow> jsval" where
  "js_and a b = Num (sint (ToInt32 a AND ToInt32 b))"

definition js_xor :: "jsval \<Rightarrow> jsval \<Rightarrow> jsval" where
  "js_xor a b = Num (sint (ToInt32 a XOR ToInt32 b))"

definition js_ushr0 :: "jsval \<Rightarrow> jsval" where
  "js_ushr0 a = Num (uint (ToInt32 a))"

text \<open>\<open>a + b\<close> and \<open>a - b\<close> on numbers; \<open>undefined\<close> converts to \<open>NaN\<close>, which is absorbing.
  (The integers that occur stay far below \<open>2^53\<close>, where doubles are exact.)\<close>

fun js_add :: "jsval \<Rightarrow> jsval \<Rightarrow> jsval" where
  "js_add (Num a) (Num b) = Num (a + b)"
| "js_add _ _ = NaN"

fun js_sub :: "jsval \<Rightarrow> jsval \<Rightarrow> jsval" where
  "js_sub (Num a) (Num b) = Num (a - b)"
| "js_sub _ _ = NaN"

text \<open>Strict equality \<open>===\<close>: \<open>NaN\<close> is not equal to itself.\<close>

definition js_strict_eq :: "jsval \<Rightarrow> jsval \<Rightarrow> bool" where
  "js_strict_eq a b = (a = b \<and> a \<noteq> NaN)"

text \<open>\<open>xs[i]\<close> on an array: \<open>undefined\<close> unless \<open>i\<close> is an index of the array.\<close>

fun aget :: "jsval list \<Rightarrow> jsval \<Rightarrow> jsval" where
  "aget xs (Num i) = (if 0 \<le> i \<and> i < int (length xs) then xs ! nat i else Undefined)"
| "aget xs _ = Undefined"

declare aget.simps [simp del]

text \<open>\<open>Array.prototype.slice(start, end)\<close>: a \<open>NaN\<close> bound counts as 0, an \<open>undefined\<close>
  end as the length, a negative bound is relative to the end.\<close>

definition relIndex :: "int \<Rightarrow> int \<Rightarrow> int" where
  "relIndex len k = (if k < 0 then max (len + k) 0 else min k len)"

fun ToInteger :: "jsval \<Rightarrow> int" where
  "ToInteger (Num n) = n"
| "ToInteger _ = 0"

definition js_slice :: "'a list \<Rightarrow> jsval \<Rightarrow> jsval \<Rightarrow> 'a list" where
  "js_slice xs start fin =
     (let len = int (length xs);
          k = relIndex len (ToInteger start);
          final = (if fin = Undefined then len else relIndex len (ToInteger fin))
      in take (nat (final - k)) (drop (nat k) xs))"

text \<open>The element conversion of \<open>new Uint8Array(bytes)\<close>.\<close>

fun ToUint8 :: "jsval \<Rightarrow> nat" where
  "ToUint8 (Num n) = nat (n mod 256)"
| "ToUint8 _ = 0"

section \<open>Strings, \<open>TextEncoder\<close> and \<open>TextDecoder\<close>\<close>

text \<open>A JavaScript string is a sequence of UTF-16 code units; \<open>length\<close>, \<open>slice\<close> and
  \<open>charCodeAt\<close> count code units.\<close>

type_synonym jsstring = "nat list"

definition isHigh :: "nat \<Rightarrow> bool" where
  "isHigh u = (0xD800 \<le> u \<and> u \<le> 0xDBFF)"

definition isLow :: "nat \<Rightarrow> bool" where
  "isLow u = (0xDC00 \<le> u \<and> u \<le> 0xDFFF)"

text \<open>Code units to scalar values; an unpaired surrogate becomes U+FFFD, as
  \<open>TextEncoder\<close> does.\<close>

fun utf16_scalars :: "jsstring \<Rightarrow> nat list" where
  "utf16_scalars [] = []"
| "utf16_scalars [u] = (if isHigh u \<or> isLow u then [0xFFFD] else [u])"
| "utf16_scalars (u # v # us) =
     (if isHigh u \<and> isLow v
        then (0x10000 + (u - 0xD800) * 0x400 + (v - 0xDC00)) # utf16_scalars us
      else if isHigh u \<or> isLow u then 0xFFFD # utf16_scalars (v # us)
      else u # utf16_scalars (v # us))"

definition utf8_of_scalar :: "nat \<Rightarrow> nat list" where
  "utf8_of_scalar c =
     (if c < 0x80 then [c]
      else if c < 0x800 then [0xC0 + c div 64, 0x80 + c mod 64]
      else if c < 0x10000 then [0xE0 + c div 4096, 0x80 + (c div 64) mod 64, 0x80 + c mod 64]
      else [0xF0 + c div 262144, 0x80 + (c div 4096) mod 64, 0x80 + (c div 64) mod 64,
            0x80 + c mod 64])"

definition TextEncoder_encode :: "jsstring \<Rightarrow> nat list" where
  "TextEncoder_encode s = concat (map utf8_of_scalar (utf16_scalars s))"

text \<open>The UTF-8 decoder of the Encoding Standard, which \<open>TextDecoder\<close> runs: a state
  machine over the bytes with the code point under construction, the number of
  continuation bytes needed and seen, and the bounds for the next continuation byte.
  A malformed sequence yields U+FFFD and the offending byte is processed again.\<close>

fun utf8_decoder :: "nat list \<Rightarrow> nat \<Rightarrow> nat \<Rightarrow> nat \<Rightarrow> nat \<Rightarrow> nat \<Rightarrow> nat list" where
  "utf8_decoder [] cp needed seen lo hi = (if needed \<noteq> 0 then [0xFFFD] else [])"
| "utf8_decoder (b # bs) cp needed seen lo hi =
     (if needed = 0 then
        (if b \<le> 0x7F then b # utf8_decoder bs 0 0 0 0x80 0xBF
         else if 0xC2 \<le> b \<and> b \<le> 0xDF then utf8_decoder bs (b mod 32) 1 0 0x80 0xBF
         else if 0xE0 \<le> b \<and> b \<le> 0xEF then
           utf8_decoder bs (b mod 16) 2 0 (if b = 0xE0 then 0xA0 else 0x80)
             (if b = 0xED then 0x9F else 0xBF)
         else if 0xF0 \<le> b \<and> b \<le> 0xF4 then
           utf8_decoder bs (b mod 8) 3 0 (if b = 0xF0 then 0x90 else 0x80)
             (if b = 0xF4 then 0x8F else 0xBF)
         else 0xFFFD # utf8_decoder bs 0 0 0 0x80 0xBF)
      else if b < lo \<or> hi < b then 0xFFFD # utf8_decoder (b # bs) 0 0 0 0x80 0xBF
      else if seen + 1 \<noteq> needed then
        utf8_decoder bs (cp * 64 + b mod 64) needed (seen + 1) 0x80 0xBF
      else (cp * 64 + b mod 64) # utf8_decoder bs 0 0 0 0x80 0xBF)"

definition utf16_of_scalar :: "nat \<Rightarrow> jsstring" where
  "utf16_of_scalar c =
     (if c < 0x10000 then [c]
      else [0xD800 + (c - 0x10000) div 0x400, 0xDC00 + (c - 0x10000) mod 0x400])"

text \<open>\<open>new TextDecoder().decode(bytes)\<close>: \<open>ignoreBOM\<close> is false by default, so a leading
  U+FEFF is dropped from the output.\<close>

definition stripBOM :: "nat list \<Rightarrow> nat list" where
  "stripBOM cs = (case cs of [] \<Rightarrow> [] | c # rest \<Rightarrow> if c = 0xFEFF then rest else cs)"

definition TextDecoder_decode :: "nat list \<Rightarrow> jsstring" where
  "TextDecoder_decode bs = concat (map utf16_of_scalar (stripBOM (utf8_decoder bs 0 0 0 0x80 0xBF)))"

section \<open>The strip payload: encoder (DevTagStrip.tsx)\<close>

record DevTagPayload =
  viewId :: jsstring
  route :: jsstring
  sha :: "jsstring option"
  flags :: "int option"
  timestamp :: "int option"

definition MAGIC :: "int list" where
  "MAGIC = [0x44, 0x54, 0x41, 0x47]"

definition VERSION :: int where
  "VERSION = 1"

definition stringToBytes :: "jsstring \<Rightarrow> int list" where
  "stringToBytes str = map int (TextEncoder_encode str)"

text \<open>\<open>hash = ((hash << 5) - hash + str.charCodeAt(i)) | 0\<close>, then \<open>hash >>> 0\<close>.\<close>

fun simpleHash_loop :: "jsstring \<Rightarrow> jsval \<Rightarrow> jsval" where
  "simpleHash_loop [] hash = hash"
| "simpleHash_loop (c # cs) hash =
     simpleHash_loop cs (js_or (js_add (js_sub (js_shl hash 5) hash) (Num (int c))) (Num 0))"

definition simpleHash :: "jsstring \<Rightarrow> jsval" where
  "simpleHash str = js_ushr0 (simpleHash_loop str (Num 0))"

text \<open>\<open>bytes.reduce((acc, b) => acc ^ b, 0)\<close>\<close>

definition xorReduce :: "jsval list \<Rightarrow> jsval" where
  "xorReduce bytes = foldl js_xor (Num 0) bytes"

text \<open>\<open>str.padEnd(7, '0')\<close>: the pad character is the digit zero, code unit 48.\<close>

definition padEnd7 :: "jsstring \<Rightarrow> jsstring" where
  "padEnd7 s = s @ replicate (7 - length s) 48"

text \<open>The big-endian bytes \<open>(n >> 24) & 0xff\<close>, \<open>(n >> 16) & 0xff\<close>, \<open>(n >> 8) & 0xff\<close>,
  \<open>n & 0xff\<close> pushed for the route hash and for the timestamp.\<close>

definition be32 :: "jsval \<Rightarrow> jsval list" where
  "be32 n = [js_and (js_sar n 24) (Num 0xff), js_and (js_sar n 16) (Num 0xff),
             js_and (js_sar n 8) (Num 0xff), js_and n (Num 0xff)]"

text \<open>\<open>x ?? d\<close>: the default \<open>d\<close> when \<open>x\<close> is \<open>undefined\<close>.\<close>

definition orElse :: "'a option \<Rightarrow> 'a \<Rightarrow> 'a" where
  "orElse x d = (case x of None \<Rightarrow> d | Some v \<Rightarrow> v)"

text \<open>\<open>buildPayload\<close>; \<open>now\<close> is the value of \<open>Math.floor(Date.now() / 1000)\<close>, read when the
  caller gives no timestamp.\<close>

definition buildPayload :: "DevTagPayload \<Rightarrow> int \<Rightarrow> jsval list" where
  "buildPayload props now =
     (let bytes = map Num MAGIC;
          bytes = bytes @ [Num VERSION];
          bytes = bytes @ [Num (orElse (flags props) 0)];
          routeHash = simpleHash (route props);
          bytes = bytes @ be32 routeHash;
          sha7 = padEnd7 (take 7 (orElse (sha props) []));
          bytes = bytes @ map Num (stringToBytes sha7);
          viewIdBytes = stringToBytes (viewId props);
          bytes = bytes @ [Num (int (length viewIdBytes))];
          bytes = bytes @ map Num viewIdBytes;
          ts = Num (orElse (timestamp props) now);
          bytes = bytes @ be32 ts;
          checksum = xorReduce bytes
      in bytes @ [checksum])"

section \<open>The strip payload: decoder (decode-devtag)\<close>

record DecodedPayload =
  version :: jsval
  flags_d :: jsval
  routeHash :: jsval
  sha_d :: jsstring
  viewId_d :: jsstring
  timestamp_d :: jsval
  checksum :: jsval
  checksumValid :: bool

definition bytesToString :: "jsval list \<Rightarrow> jsstring" where
  "bytesToString bytes = TextDecoder_decode (map ToUint8 bytes)"

text \<open>\<open>str.replace(/0+$/, '')\<close>: removes the maximal run of digit-zero characters at the
  end of the string.\<close>

definition trimTrailingZeros :: "jsstring \<Rightarrow> jsstring" where
  "trimTrailingZeros s = rev (dropWhile (\<lambda>c. c = 48) (rev s))"

text \<open>The four reads \<open>(bytes[idx++] << 24) | (bytes[idx++] << 16) | (bytes[idx++] << 8) |
  bytes[idx++]\<close>.\<close>

definition readBE32 :: "jsval list \<Rightarrow> jsval \<Rightarrow> jsval" where
  "readBE32 bytes idx =
     js_or (js_or (js_or (js_shl (aget bytes idx) 24)
                         (js_shl (aget bytes (js_add idx (Num 1))) 16))
                  (js_shl (aget bytes (js_add idx (Num 2))) 8))
           (aget bytes (js_add idx (Num 3)))"

definition parsePayload :: "jsval list \<Rightarrow> int \<Rightarrow> DecodedPayload option" where
  "parsePayload bytes startIdx =
     (let idx = startIdx + 4;
          version' = aget bytes (Num idx);
          flags' = aget bytes (Num (idx + 1));
          idx = idx + 2;
          routeHash' = readBE32 bytes (Num idx);
          idx = idx + 4;
          shaBytes = js_slice bytes (Num idx) (Num (idx + 7));
          idx = idx + 7;
          sha' = trimTrailingZeros (bytesToString shaBytes);
          viewIdLen = aget bytes (Num idx);
          idx = idx + 1;
          viewIdBytes = js_slice bytes (Num idx) (js_add (Num idx) viewIdLen);
          idx = js_add (Num idx) viewIdLen;
          viewId' = bytesToString viewIdBytes;
          timestamp' = js_ushr0 (readBE32 bytes idx);
          idx = js_add idx (Num 4);
          storedChecksum = aget bytes idx;
          payloadBytes = js_slice bytes (Num startIdx) idx;
          computedChecksum = xorReduce payloadBytes
      in Some \<lparr> version = version', flags_d = flags', routeHash = routeHash', sha_d = sha',
                viewId_d = viewId', timestamp_d = timestamp', checksum = storedChecksum,
                checksumValid = js_strict_eq storedChecksum computedChecksum \<rparr>)"

section \<open>Row search of the strip decoder (decode-devtag)\<close>

text \<open>The decoded PNG: \<open>PNG.sync.read\<close> yields the width, the height and the RGBA buffer.
  A read past the end of a \<open>Buffer\<close> gives \<open>undefined\<close>.\<close>

record PNGImage =
  width :: nat
  height :: nat
  data :: "8 word list"

definition bget :: "8 word list \<Rightarrow> int \<Rightarrow> jsval" where
  "bget d i = (if 0 \<le> i \<and> i < int (length d) then Num (uint (d ! nat i)) else Undefined)"

text \<open>Literal ASCII strings as code units.\<close>

definition ascii :: "string \<Rightarrow> jsstring" where
  "ascii s = map of_char s"

text \<open>\<open>extractBytesFromRow\<close>: for \<open>x\<close> from 0 below \<open>width\<close>, the R, G and B bytes of pixel
  \<open>x\<close> of the row are pushed.\<close>

definition extractBytesFromRow :: "8 word list \<Rightarrow> nat \<Rightarrow> int \<Rightarrow> jsval list" where
  "extractBytesFromRow d w rowIndex =
     (let rowOffset = rowIndex * int w * 4
      in concat (map (\<lambda>x. let idx = rowOffset + int x * 4
                          in [bget d idx, bget d (idx + 1), bget d (idx + 2)]) [0..<w]))"

text \<open>\<open>findMagic\<close>: the first index \<open>i \<le> bytes.length - 4\<close> at which the four magic bytes
  stand, or \<open>-1\<close>.\<close>

definition magicAt :: "jsval list \<Rightarrow> nat \<Rightarrow> bool" where
  "magicAt bytes i =
     (js_strict_eq (aget bytes (Num (int i))) (Num (MAGIC ! 0)) \<and>
      js_strict_eq (aget bytes (Num (int i + 1))) (Num (MAGIC ! 1)) \<and>
      js_strict_eq (aget bytes (Num (int i + 2))) (Num (MAGIC ! 2)) \<and>
      js_strict_eq (aget bytes (Num (int i + 3))) (Num (MAGIC ! 3)))"

function findMagic_from :: "jsval list \<Rightarrow> nat \<Rightarrow> int" where
  "findMagic_from bytes i =
     (if int i \<le> int (length bytes) - 4
      then (if magicAt bytes i then int i else findMagic_from bytes (i + 1))
      else - 1)"
  by pat_completeness auto
termination
  by (relation "measure (\<lambda>(bytes, i). length bytes - i)") auto

declare findMagic_from.simps [simp del]

definition findMagic :: "jsval list \<Rightarrow> int" where
  "findMagic bytes = findMagic_from bytes 0"

text \<open>The body of both row loops of \<open>decodeFromPNG\<close>: the value returned from this row, if
  the row makes the function return.\<close>

definition decodeRow :: "PNGImage \<Rightarrow> int \<Rightarrow> DecodedPayload option" where
  "decodeRow png row =
     (let bytes = extractBytesFromRow (data png) (width png) row;
          magicIdx = findMagic bytes
      in if magicIdx \<noteq> - 1
         then (case parsePayload bytes magicIdx of
                 Some payload \<Rightarrow> if checksumValid payload then Some payload else None
               | None \<Rightarrow> None)
         else None)"

text \<open>\<open>for (let row = height - STRIP_SEARCH_ROWS; row < height; row++)\<close>, skipping negative
  rows, then \<open>for (let row = 0; row < STRIP_SEARCH_ROWS; row++)\<close>, skipping rows beyond
  the image; the first row that yields a payload with a valid checksum ends the search.\<close>

definition STRIP_SEARCH_ROWS :: int where
  "STRIP_SEARCH_ROWS = 8"

function bottomRows :: "PNGImage \<Rightarrow> int \<Rightarrow> DecodedPayload option" where
  "bottomRows png row =
     (if row < int (height png)
      then (if row < 0 then bottomRows png (row + 1)
            else (case decodeRow png row of
                    Some payload \<Rightarrow> Some payload
                  | None \<Rightarrow> bottomRows png (row + 1)))
      else None)"
  by pat_completeness auto
termination
  by (relation "measure (\<lambda>(png, row). nat (int (height png) - row))") auto

declare bottomRows.simps [simp del]

function topRows :: "PNGImage \<Rightarrow> int \<Rightarrow> DecodedPayload option" where
  "topRows png row =
     (if row < STRIP_SEARCH_ROWS
      then (if row \<ge> int (height png) then topRows png (row + 1)
            else (case decodeRow png row of
                    Some payload \<Rightarrow> Some payload
                  | None \<Rightarrow> topRows png (row + 1)))
      else None)"
  by pat_completeness auto
termination
  by (relation "measure (\<lambda>(png, row). nat (STRIP_SEARCH_ROWS - row))") auto

declare topRows.simps [simp del]

definition decodeFromPNG :: "PNGImage \<Rightarrow> DecodedPayload option" where
  "decodeFromPNG png =
     (case bottomRows png (int (height png) - STRIP_SEARCH_ROWS) of
        Some payload \<Rightarrow> Some payload
      | None \<Rightarrow> topRows png 0)"

section \<open>The shadow decoder (decode-shadow): alpha-channel bits\<close>

text \<open>\<open>extractBitsFromRow\<close>: \<open>data[idx] & 1\<close> of the alpha byte of each pixel, for \<open>x\<close> from
  0 while \<open>x < width\<close> and fewer than \<open>numBits\<close> bits are collected.\<close>

definition extractBitsFromRow :: "8 word list \<Rightarrow> nat \<Rightarrow> nat \<Rightarrow> nat \<Rightarrow> jsval list" where
  "extractBitsFromRow d w row numBits =
     map (\<lambda>x. js_and (bget d ((int row * int w + int x) * 4 + 3)) (Num 1)) [0..<min w numBits]"

text \<open>\<open>bitsToBytes\<close>: each full group of eight bits, most significant first, by
  \<open>byte = (byte << 1) | bit\<close>.\<close>

fun bitsToBytes :: "jsval list \<Rightarrow> jsval list" where
  "bitsToBytes (b0 # b1 # b2 # b3 # b4 # b5 # b6 # b7 # rest) =
     foldl (\<lambda>byte b. js_or (js_shl byte 1) b) (Num 0) [b0, b1, b2, b3, b4, b5, b6, b7]
       # bitsToBytes rest"
| "bitsToBytes _ = []"

definition hasMagic :: "jsval list \<Rightarrow> bool" where
  "hasMagic bytes = (length bytes \<ge> 4 \<and> magicAt bytes 0)"

text \<open>The shadow decoder's \<open>parsePayload\<close>: \<open>null\<close> without the magic, otherwise the same
  field reads as the strip decoder's, from offset 0.\<close>

definition parsePayload_shadow :: "jsval list \<Rightarrow> DecodedPayload option" where
  "parsePayload_shadow bytes =
     (if \<not> hasMagic bytes then None
      else
       (let idx = 4;
            version' = aget bytes (Num idx);
            flags' = aget bytes (Num (idx + 1));
            idx = idx + 2;
            routeHash' = readBE32 bytes (Num idx);
            idx = idx + 4;
            shaBytes = js_slice bytes (Num idx) (Num (idx + 7));
            idx = idx + 7;
            sha' = trimTrailingZeros (bytesToString shaBytes);
            viewIdLen = aget bytes (Num idx);
            idx = idx + 1;
            viewIdBytes = js_slice bytes (Num idx) (js_add (Num idx) viewIdLen);
            idx = js_add (Num idx) viewIdLen;
            viewId' = bytesToString viewIdBytes;
            timestamp' = js_ushr0 (readBE32 bytes idx);
            idx = js_add idx (Num 4);
            storedChecksum = aget bytes idx;
            payloadBytes = js_slice bytes (Num 0) idx;
            computedChecksum = xorReduce payloadBytes
        in Some \<lparr> version = version', flags_d = flags', routeHash = routeHash', sha_d = sha',
                  viewId_d = viewId', timestamp_d = timestamp', checksum = storedChecksum,
                  checksumValid = js_strict_eq storedChecksum computedChecksum \<rparr>))"

definition decodeRow_shadow :: "PNGImage \<Rightarrow> nat \<Rightarrow> DecodedPayload option" where
  "decodeRow_shadow png row =
     (let maxPayloadBits = 512;
          bits = extractBitsFromRow (data png) (width png) row maxPayloadBits;
          bytes = bitsToBytes bits
      in if hasMagic bytes
         then (case parsePayload_shadow bytes of
                 Some payload \<Rightarrow> if checksumValid payload then Some payload else None
               | None \<Rightarrow> None)
         else None)"

function shadowRows :: "PNGImage \<Rightarrow> nat \<Rightarrow> DecodedPayload option" where
  "shadowRows png row =
     (if row < height png
      then (case decodeRow_shadow png row of
              Some payload \<Rightarrow> Some payload
            | None \<Rightarrow> shadowRows png (row + 1))
      else None)"
  by pat_completeness auto
termination
  by (relation "measure (\<lambda>(png, row). height png - row)") auto

declare shadowRows.simps [simp del]

definition decodeFromPNG_shadow :: "PNGImage \<Rightarrow> DecodedPayload option" where
  "decodeFromPNG_shadow png = shadowRows png 0"

text \<open>The rows the strip decoder looks at, and the rows on which the magic is found but the
  parsed payload fails its checksum.\<close>

definition searchedRow :: "PNGImage \<Rightarrow> int \<Rightarrow> bool" where
  "searchedRow png r = (0 \<le> r \<and> r < int (height png) \<and>
      (int (height png) - STRIP_SEARCH_ROWS \<le> r \<or> r < STRIP_SEARCH_ROWS))"

definition rowFailsChecksum :: "PNGImage \<Rightarrow> int \<Rightarrow> bool" where
  "rowFailsChecksum png row =
     (let bytes = extractBytesFromRow (data png) (width png) row
      in findMagic bytes \<noteq> - 1 \<and>
         (case parsePayload bytes (findMagic bytes) of
            Some payload \<Rightarrow> \<not> checksumValid payload | None \<Rightarrow> False))"

definition rowFailsChecksum_shadow :: "PNGImage \<Rightarrow> nat \<Rightarrow> bool" where
  "rowFailsChecksum_shadow png row =
     (let bytes = bitsToBytes (extractBitsFromRow (data png) (width png) row 512)
      in hasMagic bytes \<and>
         (case parsePayload_shadow bytes of
            Some payload \<Rightarrow> \<not> checksumValid payload | None \<Rightarrow> False))"

section \<open>Sample images\<close>

text \<open>A strip of two rows of eight pixels.  Row 1 carries the 23-byte payload of the view
  identifier \<open>""\<close> on route \<open>"/a"\<close> at time 0, one byte per colour channel; row 0 carries
  the same bytes except for the length prefix \<open>l\<close> and the checksum byte \<open>c\<close>.\<close>

definition stripImage :: "8 word \<Rightarrow> 8 word \<Rightarrow> PNGImage" where
  "stripImage l c = \<lparr> width = 8, height = 2, data =
     [68, 84, 65, 255,  71, 1, 0, 255,  0, 0, 6, 255,  18, 48, 48, 255,
      48, 48, 48, 255,  48, 48, l, 255,  0, 0, 0, 255,  0, c, 0, 255,
      68, 84, 65, 255,  71, 1, 0, 255,  0, 0, 6, 255,  18, 48, 48, 255,
      48, 48, 48, 255,  48, 48, 0, 255,  0, 0, 0, 255,  0, 51, 0, 255] \<rparr>"

definition stripPayload :: DecodedPayload where
  "stripPayload = \<lparr> version = Num 1, flags_d = Num 0, routeHash = Num 1554, sha_d = [],
      viewId_d = [], timestamp_d = Num 0, checksum = Num 51, checksumValid = True \<rparr>"

text \<open>A single row of 184 pixels whose alpha bytes (254 or 255) carry, in their lowest bit,
  the same payload with checksum byte \<open>ck\<close>.\<close>

definition bitsOfByte :: "nat \<Rightarrow> nat list" where
  "bitsOfByte b = map (\<lambda>i. (b div 2 ^ i) mod 2) [7, 6, 5, 4, 3, 2, 1, 0]"

definition alphaRow :: "nat list \<Rightarrow> 8 word list" where
  "alphaRow bits = concat (map (\<lambda>bit. [0, 0, 0, of_nat (254 + bit)]) bits)"

definition shadowImage :: "nat \<Rightarrow> PNGImage" where
  "shadowImage ck = \<lparr> width = 184, height = 1, data = alphaRow (concat (map bitsOfByte
     [68, 84, 65, 71, 1, 0, 0, 0, 6, 18, 48, 48, 48, 48, 48, 48, 48, 0, 0, 0, 0, 0, ck])) \<rparr>"

section \<open>Well-formed strings\<close>

text \<open>A string is well formed when every code unit is below \<open>2^16\<close> and every surrogate is
  part of a high-low pair; a scalar value is a code point that is not a surrogate.\<close>

fun wellFormed :: "jsstring \<Rightarrow> bool" where
  "wellFormed [] = True"
| "wellFormed [u] = (u < 0x10000 \<and> \<not> isHigh u \<and> \<not> isLow u)"
| "wellFormed (u # v # us) =
     (if isHigh u then isLow v \<and> wellFormed us
      else u < 0x10000 \<and> \<not> isLow u \<and> wellFormed (v # us))"

definition isScalar :: "nat \<Rightarrow> bool" where
  "isScalar c = (c < 0x110000 \<and> \<not> (0xD800 \<le> c \<and> c \<le> 0xDFFF))"

section \<open>The hierarchical payload and its LSB embedding (DevTagStrip.tsx)\<close>














text \<open>The row of the pixel that byte \<open>i\<close> of the buffer belongs to.\<close>

definition rowOf :: "nat \<Rightarrow> nat \<Rightarrow> int" where
  "rowOf w i = int ((i div 4) div w)"

text \<open>The frame condition of the embedding: the buffer keeps its length, every byte keeps
  its upper seven bits, and a byte that changes is an R, G or B byte of a row in \<open>R\<close>.\<close>

definition lsbFrame :: "int set \<Rightarrow> nat \<Rightarrow> 8 word list \<Rightarrow> 8 word list \<Rightarrow> bool" where
  "lsbFrame R w old new \<longleftrightarrow>
     length new = length old \<and>
     (\<forall>i<length old. drop_bit 1 (new ! i) = drop_bit 1 (old ! i) \<and>
        (new ! i \<noteq> old ! i \<longrightarrow> i mod 4 \<noteq> 3 \<and> rowOf w i \<in> R))"



section \<open>The perceptual decoder (decode.ts): numbers\<close>

text \<open>
  The perceptual scheme computes with JavaScript numbers.  They are modelled as real
  numbers, with \<open>None\<close> for \<open>NaN\<close>: the rounding of doubles is left out, and every operation
  propagates \<open>NaN\<close>.  A quotient by zero occurs in the modelled code only as \<open>0 / 0\<close>, which
  is \<open>NaN\<close>.
\<close>

type_synonym jsnum = "real option"

fun nadd :: "jsnum \<Rightarrow> jsnum \<Rightarrow> jsnum" where
  "nadd (Some a) (Some b) = Some (a + b)"
| "nadd _ _ = None"

fun nsub :: "jsnum \<Rightarrow> jsnum \<Rightarrow> jsnum" where
  "nsub (Some a) (Some b) = Some (a - b)"
| "nsub _ _ = None"

fun nmul :: "jsnum \<Rightarrow> jsnum \<Rightarrow> jsnum" where
  "nmul (Some a) (Some b) = Some (a * b)"
| "nmul _ _ = None"

fun ndiv :: "jsnum \<Rightarrow> jsnum \<Rightarrow> jsnum" where
  "ndiv (Some a) (Some b) = (if b = 0 then None else Some (a / b))"
| "ndiv _ _ = None"

fun nsqrt :: "jsnum \<Rightarrow> jsnum" where
  "nsqrt (Some a) = (if a < 0 then None else Some (sqrt a))"
| "nsqrt None = None"

text \<open>\<open>a > t\<close>: false when \<open>a\<close> is \<open>NaN\<close>.\<close>

fun ngt :: "jsnum \<Rightarrow> real \<Rightarrow> bool" where
  "ngt (Some a) t = (a > t)"
| "ngt None t = False"

text \<open>A byte read from the buffer as a number: \<open>undefined\<close> becomes \<open>NaN\<close> in arithmetic.\<close>

fun toNum :: "jsval \<Rightarrow> jsnum" where
  "toNum (Num n) = Some (real_of_int n)"
| "toNum Undefined = None"
| "toNum NaN = None"

section \<open>The perceptual decoder: tiles and correlation\<close>

text \<open>\<open>extractTile\<close>: a \<open>tileSize\<close> by \<open>tileSize\<close> grid; the entry for \<open>(x, y)\<close> is the average
  of R, G and B of pixel \<open>(startX + x, startY + y)\<close> under the guard
  \<open>px < width && py < width\<close>, and 0 otherwise.\<close>

definition extractTile :: "8 word list \<Rightarrow> nat \<Rightarrow> nat \<Rightarrow> nat \<Rightarrow> nat \<Rightarrow> jsnum list list" where
  "extractTile d w startX startY tileSize =
     map (\<lambda>y. map (\<lambda>x.
            let px = startX + x; py = startY + y
            in if px < w \<and> py < w
               then (let idx = (int py * int w + int px) * 4
                     in ndiv (nadd (nadd (toNum (bget d idx)) (toNum (bget d (idx + 1))))
                                   (toNum (bget d (idx + 2)))) (Some 3))
               else Some 0) [0..<tileSize]) [0..<tileSize]"

text \<open>\<open>pattern[y]?.[x] ?? 0\<close>\<close>

definition elemAt :: "jsnum list list \<Rightarrow> nat \<Rightarrow> nat \<Rightarrow> jsnum" where
  "elemAt p y x =
     (if y < length p then (if x < length (p ! y) then p ! y ! x else Some 0) else Some 0)"

text \<open>\<open>compare\<close>: the Pearson correlation over the \<open>size\<close> by \<open>size\<close> cells, where \<open>size\<close> is
  the smaller of the two row counts; 0 when a denominator is 0.  Over the reals a
  constant tile has denominator exactly 0 and scores 0; with doubles the difference under
  the square root can round to a small nonzero or negative number, and the code then
  returns rounding noise or \<open>NaN\<close>.  The value of a score is therefore not always that of
  the code.  The general theorems about the scan below do not unfold \<open>compare\<close>: they use of
  a score only its comparison with the threshold.\<close>

definition compare :: "jsnum list list \<Rightarrow> jsnum list list \<Rightarrow> jsnum" where
  "compare pattern1 pattern2 =
     (let size = min (length pattern1) (length pattern2);
          cells = concat (map (\<lambda>y. map (\<lambda>x. (elemAt pattern1 y x, elemAt pattern2 y x))
                                          [0..<size]) [0..<size]);
          sum1 = foldl (\<lambda>s (v1, v2). nadd s v1) (Some 0) cells;
          sum2 = foldl (\<lambda>s (v1, v2). nadd s v2) (Some 0) cells;
          sumSq1 = foldl (\<lambda>s (v1, v2). nadd s (nmul v1 v1)) (Some 0) cells;
          sumSq2 = foldl (\<lambda>s (v1, v2). nadd s (nmul v2 v2)) (Some 0) cells;
          sumProd = foldl (\<lambda>s (v1, v2). nadd s (nmul v1 v2)) (Some 0) cells;
          count = Some (real (length cells));
          mean1 = ndiv sum1 count;
          mean2 = ndiv sum2 count;
          numerator = nsub sumProd (nmul (nmul count mean1) mean2);
          denom1 = nsqrt (nsub sumSq1 (nmul (nmul count mean1) mean1));
          denom2 = nsqrt (nsub sumSq2 (nmul (nmul count mean2) mean2))
      in if denom1 = Some 0 \<or> denom2 = Some 0 then Some 0
         else ndiv numerator (nmul denom1 denom2))"

section \<open>The perceptual decoder: the scan\<close>

record RegistryEntry =
  path_r :: jsstring
  type_r :: jsstring
  depth_r :: int
  pattern :: "jsnum list list"

record Match =
  path_m :: jsstring
  type_m :: jsstring
  score :: real
  count :: nat

text \<open>The \<open>Map\<close> of matches, in insertion order.  \<open>recordMatch\<close> is the body of
  \<open>if (score > threshold)\<close>: an existing entry is counted and keeps the larger score, a new
  key is added at the end.\<close>

fun recordMatch :: "(jsstring \<times> Match) list \<Rightarrow> RegistryEntry \<Rightarrow> real \<Rightarrow> (jsstring \<times> Match) list" where
  "recordMatch [] entry s =
     [(path_r entry, \<lparr> path_m = path_r entry, type_m = type_r entry, score = s, count = 1 \<rparr>)]"
| "recordMatch ((k, existing) # rest) entry s =
     (if k = path_r entry
      then (k, existing \<lparr> count := count existing + 1, score := max (score existing) s \<rparr>) # rest
      else (k, existing) # recordMatch rest entry s)"

text \<open>\<open>for (const entry of registry)\<close>\<close>

fun matchEntries ::
  "(jsstring \<times> Match) list \<Rightarrow> jsnum list list \<Rightarrow> RegistryEntry list \<Rightarrow> real \<Rightarrow> (jsstring \<times> Match) list" where
  "matchEntries matches tile [] threshold = matches"
| "matchEntries matches tile (entry # rest) threshold =
     (let sc = compare tile (pattern entry)
      in matchEntries (if ngt sc threshold then recordMatch matches entry (the sc) else matches)
           tile rest threshold)"

text \<open>\<open>const step = 32\<close>\<close>

definition step :: nat where
  "step = 32"

text \<open>\<open>for (let x = 0; x < width - tileSize; x += step)\<close>\<close>

function scanX ::
  "PNGImage \<Rightarrow> RegistryEntry list \<Rightarrow> nat \<Rightarrow> real \<Rightarrow> nat \<Rightarrow> nat \<Rightarrow> (jsstring \<times> Match) list
   \<Rightarrow> (jsstring \<times> Match) list" where
  "scanX png registry tileSize threshold y x matches =
     (if int x < int (width png) - int tileSize
      then scanX png registry tileSize threshold y (x + step)
             (matchEntries matches (extractTile (data png) (width png) x y tileSize) registry threshold)
      else matches)"
  by pat_completeness auto
termination
  by (relation "measure (\<lambda>(png, registry, tileSize, threshold, y, x, matches). width png - x)")
     (auto simp: step_def)

declare scanX.simps [simp del]

text \<open>\<open>for (let y = 0; y < height - tileSize; y += step)\<close>\<close>

function scanY ::
  "PNGImage \<Rightarrow> RegistryEntry list \<Rightarrow> nat \<Rightarrow> real \<Rightarrow> nat \<Rightarrow> (jsstring \<times> Match) list
   \<Rightarrow> (jsstring \<times> Match) list" where
  "scanY png registry tileSize threshold y matches =
     (if int y < int (height png) - int tileSize
      then scanY png registry tileSize threshold (y + step)
             (scanX png registry tileSize threshold y 0 matches)
      else matches)"
  by pat_completeness auto
termination
  by (relation "measure (\<lambda>(png, registry, tileSize, threshold, y, matches). height png - y)")
     (auto simp: step_def)

declare scanY.simps [simp del]

text \<open>The final \<open>sort\<close>: by count, then by score, both descending; the sort is stable.\<close>

definition matchOrder :: "Match \<Rightarrow> Match \<Rightarrow> real" where
  "matchOrder a b =
     (if count b \<noteq> count a then real (count b) - real (count a) else score b - score a)"

fun insertMatch :: "Match \<Rightarrow> Match list \<Rightarrow> Match list" where
  "insertMatch a [] = [a]"
| "insertMatch a (b # bs) = (if matchOrder a b \<le> 0 then a # b # bs else b # insertMatch a bs)"

definition sortMatches :: "Match list \<Rightarrow> Match list" where
  "sortMatches ms = foldr insertMatch ms []"

definition scan :: "PNGImage \<Rightarrow> RegistryEntry list \<Rightarrow> nat \<Rightarrow> real \<Rightarrow> Match list" where
  "scan png registry tileSize threshold =
     sortMatches (map snd (scanY png registry tileSize threshold 0 []))"

text \<open>The coordinates \<open>0, 32, 64, \<dots>\<close> below a limit, and the sampled tiles paired with
  every registry entry, row by row.\<close>

definition gridPositions :: "int \<Rightarrow> nat list" where
  "gridPositions limit = map (\<lambda>k. k * step) [0..<nat ((limit + 31) div 32)]"

definition sweep :: "PNGImage \<Rightarrow> RegistryEntry list \<Rightarrow> nat \<Rightarrow> ((nat \<times> nat) \<times> RegistryEntry) list" where
  "sweep png registry tileSize =
     concat (map (\<lambda>y. concat (map (\<lambda>x. map (\<lambda>entry. ((x, y), entry)) registry)
                                   (gridPositions (int (width png) - int tileSize))))
                 (gridPositions (int (height png) - int tileSize)))"

definition scoreAt :: "PNGImage \<Rightarrow> nat \<Rightarrow> (nat \<times> nat) \<times> RegistryEntry \<Rightarrow> jsnum" where
  "scoreAt png tileSize c =
     compare (extractTile (data png) (width png) (fst (fst c)) (snd (fst c)) tileSize) (pattern (snd c))"

definition recordHit ::
  "PNGImage \<Rightarrow> nat \<Rightarrow> real \<Rightarrow> (jsstring \<times> Match) list \<Rightarrow> (nat \<times> nat) \<times> RegistryEntry
   \<Rightarrow> (jsstring \<times> Match) list" where
  "recordHit png tileSize threshold matches c =
     (if ngt (scoreAt png tileSize c) threshold
      then recordMatch matches (snd c) (the (scoreAt png tileSize c)) else matches)"

section \<open>Pattern synthesis: encoder (DevTag.tsx) and decoder (decode.ts)\<close>

text \<open>\<open>hash\<close>, the same text in both files: \<open>h = ((h << 5) - h + str.charCodeAt(i)) | 0\<close>, then
  \<open>h >>> 0\<close>.\<close>

fun hash_loop :: "jsstring \<Rightarrow> jsval \<Rightarrow> jsval" where
  "hash_loop [] h = h"
| "hash_loop (c # cs) h =
     hash_loop cs (js_or (js_add (js_sub (js_shl h 5) h) (Num (int c))) (Num 0))"

definition hash :: "jsstring \<Rightarrow> int" where
  "hash str = (case js_ushr0 (hash_loop str (Num 0)) of Num h \<Rightarrow> h | _ \<Rightarrow> 0)"

text \<open>\<open>SeededRandom.next\<close>: the new seed \<open>(seed * 9301 + 49297) % 233280\<close>; the value
  returned is the new seed divided by 233280.\<close>

definition nextSeed :: "int \<Rightarrow> int" where
  "nextSeed s = (s * 9301 + 49297) mod 233280"

text \<open>\<open>a % b\<close> for a positive \<open>b\<close>: the remainder has the sign of \<open>a\<close>.\<close>

definition js_rem :: "int \<Rightarrow> int \<Rightarrow> int" where
  "js_rem a b = (if a < 0 then - ((- a) mod b) else a mod b)"

text \<open>\<open>seed >> n\<close> on the unsigned hash: the hash is first read as a signed 32-bit integer.\<close>

definition sar32 :: "int \<Rightarrow> nat \<Rightarrow> int" where
  "sar32 a n = sint (signed_drop_bit n (word_of_int a :: 32 word))"

text \<open>The three frequencies, phases and amplitudes.  The statements that compute them
  from \<open>data\<close> are the same, character for character, in \<open>generatePerceptualPattern\<close> and
  in \<open>generatePattern\<close>; the six draws are taken in the order phase1, phase2, phase3,
  amp1, amp2, amp3.\<close>

record PatternParams =
  freq1 :: int
  freq2 :: int
  freq3 :: int
  phase1 :: real
  phase2 :: real
  phase3 :: real
  amp1 :: real
  amp2 :: real
  amp3 :: real

definition patternParams :: "jsstring \<Rightarrow> PatternParams" where
  "patternParams dat =
     (let seed = hash dat;
          s1 = nextSeed seed; s2 = nextSeed s1; s3 = nextSeed s2;
          s4 = nextSeed s3; s5 = nextSeed s4; s6 = nextSeed s5
      in \<lparr> freq1 = 2 + js_rem seed 5,
           freq2 = 6 + js_rem (sar32 seed 8) 5,
           freq3 = 12 + js_rem (sar32 seed 16) 6,
           phase1 = real_of_int s1 / 233280 * pi * 2,
           phase2 = real_of_int s2 / 233280 * pi * 2,
           phase3 = real_of_int s3 / 233280 * pi * 2,
           amp1 = 0.4 + real_of_int s4 / 233280 * 0.3,
           amp2 = 0.3 + real_of_int s5 / 233280 * 0.3,
           amp3 = 0.3 + real_of_int s6 / 233280 * 0.2 \<rparr>)"

text \<open>\<open>combined = (val1 + val2 + val3) / 3\<close> at \<open>(x, y)\<close> of a \<open>w\<close> by \<open>h\<close> grid.\<close>

definition combined :: "PatternParams \<Rightarrow> nat \<Rightarrow> nat \<Rightarrow> nat \<Rightarrow> nat \<Rightarrow> real" where
  "combined p w h x y =
     (let val1 = sin ((real x / real w) * real_of_int (freq1 p) * pi * 2 + phase1 p) * amp1 p;
          val2 = sin ((real y / real h) * real_of_int (freq2 p) * pi * 2 + phase2 p) * amp2 p;
          val3 = sin ((real x / real w + real y / real h) * real_of_int (freq3 p) * pi * 2
                      + phase3 p) * amp3 p
      in (val1 + val2 + val3) / 3)"

text \<open>A number stored into a \<open>Uint8ClampedArray\<close>: clamped to \<open>[0, 255]\<close> and rounded to the
  nearest integer, ties to even.\<close>

definition roundHalfEven :: "real \<Rightarrow> int" where
  "roundHalfEven v =
     (let f = \<lfloor>v\<rfloor>
      in if v - of_int f < 1 / 2 then f
         else if v - of_int f > 1 / 2 then f + 1
         else if even f then f else f + 1)"

definition clampU8 :: "real \<Rightarrow> 8 word" where
  "clampU8 v = (if v \<le> 0 then 0 else if v \<ge> 255 then 255 else word_of_int (roundHalfEven v))"

text \<open>The encoder: \<open>variation = Math.floor(combined * intensity * 255)\<close>,
  \<open>gray = 245 + variation\<close>, stored to R, G and B; alpha is 15.\<close>

definition generatePerceptualPattern :: "jsstring \<Rightarrow> nat \<Rightarrow> nat \<Rightarrow> real \<Rightarrow> 8 word list" where
  "generatePerceptualPattern dat w h intensity =
     (let p = patternParams dat
      in concat (map (\<lambda>y. concat (map (\<lambda>x.
           let variation = \<lfloor>combined p w h x y * intensity * 255\<rfloor>;
               gray = clampU8 (245 + of_int variation)
           in [gray, gray, gray, 15]) [0..<w])) [0..<h]))"

text \<open>The decoder: \<open>variation = combined * intensity * 255\<close>, \<open>gray = 245 + variation\<close>.\<close>

definition generatePattern :: "jsstring \<Rightarrow> nat \<Rightarrow> real \<Rightarrow> real list list" where
  "generatePattern dat tileSize intensity =
     (let p = patternParams dat
      in map (\<lambda>y. map (\<lambda>x.
           let variation = combined p tileSize tileSize x y * intensity * 255;
               gray = 245 + variation
           in gray) [0..<tileSize]) [0..<tileSize])"

text \<open>The key the decoder's command line builds for the page component.\<close>

definition billingKey :: jsstring where
  \<open>billingKey = ascii ''{"p":"BILLING_PAGE","t":"page","d":1}''\<close>

text \<open>The paths that score above the threshold somewhere in the sweep.\<close>

definition hits :: "PNGImage \<Rightarrow> nat \<Rightarrow> real \<Rightarrow> ((nat \<times> nat) \<times> RegistryEntry) list \<Rightarrow> jsstring set" where
  "hits png tileSize threshold cs =
     (\<lambda>c. path_r (snd c)) ` {c \<in> set cs. ngt (scoreAt png tileSize c) threshold}"

text \<open>A three by three image whose upper left two by two tile is a checkerboard of the
  grays 0 and 3, and a registry entry with that pattern.\<close>

definition checkerImage :: PNGImage where
  "checkerImage = \<lparr> width = 3, height = 3, data =
     [0, 0, 0, 255,  3, 3, 3, 255,  0, 0, 0, 255,
      3, 3, 3, 255,  0, 0, 0, 255,  0, 0, 0, 255,
      0, 0, 0, 255,  0, 0, 0, 255,  0, 0, 0, 255] \<rparr>"

definition checkerEntry :: RegistryEntry where
  "checkerEntry = \<lparr> path_r = ascii ''PAGE'', type_r = ascii ''page'', depth_r = 1,
                     pattern = [[Some 0, Some 3], [Some 3, Some 0]] \<rparr>"

text \<open>An image one pixel wide and two pixels high.\<close>

definition tallImage :: PNGImage where
  "tallImage = \<lparr> width = 1, height = 2, data = [9, 9, 9, 255,  6, 6, 6, 255] \<rparr>"

section \<open>Big-endian reassembly\<close>

lemma byte_take_bit: "0 \<le> (b::int) \<Longrightarrow> b < 256 \<Longrightarrow> take_bit 8 b = b"
  by (simp add: take_bit_int_eq_self)

lemma or4_int:
  fixes b0 b1 b2 b3 :: int
  assumes "0 \<le> b0" "b0 < 256" "0 \<le> b1" "b1 < 256" "0 \<le> b2" "b2 < 256" "0 \<le> b3" "b3 < 256"
  shows "push_bit 24 b0 OR push_bit 16 b1 OR push_bit 8 b2 OR b3
         = b0 * 2 ^ 24 + b1 * 2 ^ 16 + b2 * 2 ^ 8 + b3"
proof -
  have e: "concat_bit 8 b3 (concat_bit 8 b2 (concat_bit 8 b1 b0))
           = b0 * 2 ^ 24 + b1 * 2 ^ 16 + b2 * 2 ^ 8 + b3"
    using assms by (simp add: concat_bit_eq byte_take_bit push_bit_eq_mult)
  have "push_bit 24 b0 OR push_bit 16 b1 OR push_bit 8 b2 OR b3
        = push_bit 24 b0 OR push_bit 16 (take_bit 8 b1) OR push_bit 8 (take_bit 8 b2)
          OR take_bit 8 b3"
    using assms by (simp add: byte_take_bit)
  also have "\<dots> = concat_bit 8 b3 (concat_bit 8 b2 (concat_bit 8 b1 b0))"
    by (rule bit_eqI) (auto simp: bit_simps)
  finally show ?thesis using e by simp
qed

lemma word_or4:
  fixes b0 b1 b2 b3 :: int
  assumes "0 \<le> b0" "b0 < 256" "0 \<le> b1" "b1 < 256" "0 \<le> b2" "b2 < 256" "0 \<le> b3" "b3 < 256"
  shows "((push_bit 24 (word_of_int b0) OR push_bit 16 (word_of_int b1))
           OR push_bit 8 (word_of_int b2)) OR (word_of_int b3 :: 32 word)
         = word_of_int (b0 * 2 ^ 24 + b1 * 2 ^ 16 + b2 * 2 ^ 8 + b3)"
proof -
  have "((push_bit 24 (word_of_int b0) OR push_bit 16 (word_of_int b1))
           OR push_bit 8 (word_of_int b2)) OR (word_of_int b3 :: 32 word)
        = word_of_int (push_bit 24 b0 OR push_bit 16 b1 OR push_bit 8 b2 OR b3)"
    by (simp add: push_bit_of_int word_wi_log_defs or.assoc)
  also have "\<dots> = word_of_int (b0 * 2 ^ 24 + b1 * 2 ^ 16 + b2 * 2 ^ 8 + b3)"
    using assms by (simp only: or4_int)
  finally show ?thesis .
qed

lemma be_sum_bounds:
  fixes b0 b1 b2 b3 :: int
  assumes "0 \<le> b0" "b0 < 256" "0 \<le> b1" "b1 < 256" "0 \<le> b2" "b2 < 256" "0 \<le> b3" "b3 < 256"
  shows "0 \<le> b0 * 2 ^ 24 + b1 * 2 ^ 16 + b2 * 2 ^ 8 + b3"
    and "b0 * 2 ^ 24 + b1 * 2 ^ 16 + b2 * 2 ^ 8 + b3 < 2 ^ 32"
  using assms by auto

lemma readBE32_bytes:
  fixes b0 b1 b2 b3 :: int
  assumes rd: "aget bytes idx = Num b0" "aget bytes (js_add idx (Num 1)) = Num b1"
    "aget bytes (js_add idx (Num 2)) = Num b2" "aget bytes (js_add idx (Num 3)) = Num b3"
    and bnd: "0 \<le> b0" "b0 < 256" "0 \<le> b1" "b1 < 256" "0 \<le> b2" "b2 < 256" "0 \<le> b3" "b3 < 256"
  shows "readBE32 bytes idx
         = Num (sint (word_of_int (b0 * 2 ^ 24 + b1 * 2 ^ 16 + b2 * 2 ^ 8 + b3) :: 32 word))"
proof -
  have "readBE32 bytes idx
        = Num (sint (((push_bit 24 (word_of_int b0) OR push_bit 16 (word_of_int b1))
           OR push_bit 8 (word_of_int b2)) OR (word_of_int b3 :: 32 word)))"
    by (simp add: readBE32_def js_or_def js_shl_def rd)
  then show ?thesis
    by (simp only: word_or4 [OF bnd])
qed

text \<open>\<open>parsePayload\<close> with the index arithmetic carried out: every field as a function of
  the array and the start offset.\<close>

definition viewIdEnd :: "jsval list \<Rightarrow> int \<Rightarrow> jsval" where
  "viewIdEnd bytes startIdx = js_add (Num (startIdx + 18)) (aget bytes (Num (startIdx + 17)))"

lemma parsePayload_fields:
  "parsePayload bytes startIdx = Some
     \<lparr> version = aget bytes (Num (startIdx + 4)),
       flags_d = aget bytes (Num (startIdx + 5)),
       routeHash = readBE32 bytes (Num (startIdx + 6)),
       sha_d = trimTrailingZeros (bytesToString
                 (js_slice bytes (Num (startIdx + 10)) (Num (startIdx + 17)))),
       viewId_d = bytesToString (js_slice bytes (Num (startIdx + 18)) (viewIdEnd bytes startIdx)),
       timestamp_d = js_ushr0 (readBE32 bytes (viewIdEnd bytes startIdx)),
       checksum = aget bytes (js_add (viewIdEnd bytes startIdx) (Num 4)),
       checksumValid = js_strict_eq (aget bytes (js_add (viewIdEnd bytes startIdx) (Num 4)))
          (xorReduce (js_slice bytes (Num startIdx) (js_add (viewIdEnd bytes startIdx) (Num 4)))) \<rparr>"
  unfolding parsePayload_def Let_def viewIdEnd_def
  by (simp only: add.assoc) simp

lemma parsePayload_total: "\<exists>p. parsePayload bytes startIdx = Some p"
  by (simp add: parsePayload_def Let_def)

section \<open>Timestamp decoding\<close>

text \<open>
  Claim C5.  Whenever the four bytes of the timestamp field (the bytes that follow the
  view identifier, whose length prefix is \<open>n\<close>) are \<open>b0\<close>, \<open>b1\<close>, \<open>b2\<close>, \<open>b3\<close>, \<open>parsePayload\<close>
  returns the timestamp \<open>b0 * 2^24 + b1 * 2^16 + b2 * 2^8 + b3\<close>, a value in \<open>[0, 2^32)\<close>,
  also when the top bit of \<open>b0\<close> is set and the signed 32-bit intermediate is negative.
\<close>

theorem parsePayload_timestamp_unsigned:
  fixes b0 b1 b2 b3 :: int
  assumes len: "aget bytes (Num (startIdx + 17)) = Num n"
    and rd: "aget bytes (Num (startIdx + 18 + n)) = Num b0"
            "aget bytes (Num (startIdx + 18 + n + 1)) = Num b1"
            "aget bytes (Num (startIdx + 18 + n + 2)) = Num b2"
            "aget bytes (Num (startIdx + 18 + n + 3)) = Num b3"
    and bnd: "0 \<le> b0" "b0 < 256" "0 \<le> b1" "b1 < 256" "0 \<le> b2" "b2 < 256" "0 \<le> b3" "b3 < 256"
  shows "\<exists>p. parsePayload bytes startIdx = Some p
           \<and> timestamp_d p = Num (b0 * 2 ^ 24 + b1 * 2 ^ 16 + b2 * 2 ^ 8 + b3)
           \<and> 0 \<le> b0 * 2 ^ 24 + b1 * 2 ^ 16 + b2 * 2 ^ 8 + b3
           \<and> b0 * 2 ^ 24 + b1 * 2 ^ 16 + b2 * 2 ^ 8 + b3 < 2 ^ 32"
proof -
  obtain p where p: "parsePayload bytes startIdx = Some p"
    using parsePayload_total by blast
  define T where "T = b0 * 2 ^ 24 + b1 * 2 ^ 16 + b2 * 2 ^ 8 + b3"
  have b: "0 \<le> T" "T < 2 ^ 32"
    unfolding T_def using be_sum_bounds [OF bnd] by simp_all
  have "readBE32 bytes (Num (startIdx + 18 + n)) = Num (sint (word_of_int T :: 32 word))"
    unfolding T_def using rd by (intro readBE32_bytes bnd) simp_all
  moreover have "viewIdEnd bytes startIdx = Num (startIdx + 18 + n)"
    by (simp add: viewIdEnd_def len)
  ultimately have "timestamp_d p = Num (uint (word_of_int T :: 32 word))"
    using p by (auto simp: parsePayload_fields js_ushr0_def)
  moreover have "uint (word_of_int T :: 32 word) = T"
    by (subst uint_word_of_int) (use b in simp)
  ultimately show ?thesis using p b unfolding T_def by simp
qed

text \<open>A payload with an empty view identifier and the timestamp bytes FF 00 00 01.\<close>

theorem parsePayload_timestamp_unsigned_witness:
  "\<exists>p. parsePayload (map Num [0x44, 0x54, 0x41, 0x47, 1, 0, 0, 0, 0, 0, 48, 48, 48, 48, 48, 48, 48,
                                 0, 255, 0, 0, 1, 0]) 0 = Some p
       \<and> timestamp_d p = Num 4278190081"
  using parsePayload_timestamp_unsigned [of "map Num [0x44, 0x54, 0x41, 0x47, 1, 0, 0, 0, 0, 0,
      48, 48, 48, 48, 48, 48, 48, 0, 255, 0, 0, 1, 0]" 0 0 255 0 0 1]
  by (simp add: aget.simps)

section \<open>Row search: only checksum-valid payloads are returned\<close>

lemma all_from_step_int:
  fixes row :: int
  assumes "Q row \<Longrightarrow> P row"
  shows "(\<forall>r. row \<le> r \<and> Q r \<longrightarrow> P r) \<longleftrightarrow> (\<forall>r. row + 1 \<le> r \<and> Q r \<longrightarrow> P r)"
proof
  assume a: "\<forall>r. row \<le> r \<and> Q r \<longrightarrow> P r"
  show "\<forall>r. row + 1 \<le> r \<and> Q r \<longrightarrow> P r" using a by auto
next
  assume a: "\<forall>r. row + 1 \<le> r \<and> Q r \<longrightarrow> P r"
  show "\<forall>r. row \<le> r \<and> Q r \<longrightarrow> P r"
  proof (intro allI impI)
    fix r assume h: "row \<le> r \<and> Q r"
    then have "r = row \<or> row + 1 \<le> r" by linarith
    then show "P r" using a h assms by auto
  qed
qed

lemma all_from_step_nat:
  fixes row :: nat
  assumes "Q row \<Longrightarrow> P row"
  shows "(\<forall>r. row \<le> r \<and> Q r \<longrightarrow> P r) \<longleftrightarrow> (\<forall>r. row + 1 \<le> r \<and> Q r \<longrightarrow> P r)"
proof
  assume a: "\<forall>r. row \<le> r \<and> Q r \<longrightarrow> P r"
  show "\<forall>r. row + 1 \<le> r \<and> Q r \<longrightarrow> P r" using a by auto
next
  assume a: "\<forall>r. row + 1 \<le> r \<and> Q r \<longrightarrow> P r"
  show "\<forall>r. row \<le> r \<and> Q r \<longrightarrow> P r"
  proof (intro allI impI)
    fix r assume h: "row \<le> r \<and> Q r"
    then have "r = row \<or> row + 1 \<le> r" by linarith
    then show "P r" using a h assms by auto
  qed
qed

lemma decodeRow_valid: "decodeRow png row = Some p \<Longrightarrow> checksumValid p"
  by (auto simp: decodeRow_def Let_def split: if_splits option.splits)

lemma bottomRows_valid: "bottomRows png row = Some p \<Longrightarrow> checksumValid p"
proof (induction png row rule: bottomRows.induct)
  case (1 png row)
  then show ?case
    by (subst (asm) (3) bottomRows.simps) (auto split: if_splits option.splits dest: decodeRow_valid)
qed

lemma topRows_valid: "topRows png row = Some p \<Longrightarrow> checksumValid p"
proof (induction png row rule: topRows.induct)
  case (1 png row)
  then show ?case
    by (subst (asm) (3) topRows.simps) (auto split: if_splits option.splits dest: decodeRow_valid)
qed

lemma bottomRows_None_iff:
  "bottomRows png row = None \<longleftrightarrow> (\<forall>r. row \<le> r \<and> 0 \<le> r \<and> r < int (height png) \<longrightarrow> decodeRow png r = None)"
proof (induction png row rule: bottomRows.induct)
  case (1 png row)
  show ?case
  proof (cases "row < int (height png)")
    case False
    then show ?thesis by (subst bottomRows.simps) auto
  next
    case True
    note lt = this
    show ?thesis
    proof (cases "row < 0")
      case True
      have "bottomRows png row = bottomRows png (row + 1)"
        using lt True by (subst bottomRows.simps) simp
      moreover have "(\<forall>r. row \<le> r \<and> 0 \<le> r \<and> r < int (height png) \<longrightarrow> decodeRow png r = None)
         \<longleftrightarrow> (\<forall>r. row + 1 \<le> r \<and> 0 \<le> r \<and> r < int (height png) \<longrightarrow> decodeRow png r = None)"
        using True by (intro all_from_step_int) simp
      ultimately show ?thesis using "1.IH"(1)[OF lt True] by simp
    next
      case False
      show ?thesis
      proof (cases "decodeRow png row")
        case (Some p)
        then have "bottomRows png row = Some p"
          using lt False by (subst bottomRows.simps) simp
        then show ?thesis using Some lt False by auto
      next
        case None
        then have e: "bottomRows png row = bottomRows png (row + 1)"
          using lt False by (subst bottomRows.simps) simp
        have "(\<forall>r. row \<le> r \<and> 0 \<le> r \<and> r < int (height png) \<longrightarrow> decodeRow png r = None)
         \<longleftrightarrow> (\<forall>r. row + 1 \<le> r \<and> 0 \<le> r \<and> r < int (height png) \<longrightarrow> decodeRow png r = None)"
          using None by (intro all_from_step_int) simp
        then show ?thesis using "1.IH"(2)[OF lt False None] e by simp
      qed
    qed
  qed
qed

lemma xorReduce_Num: "\<exists>k. xorReduce bs = Num k"
  by (induction bs rule: rev_induct) (simp_all add: xorReduce_def js_xor_def)


lemma topRows_None_iff:
  "topRows png row = None \<longleftrightarrow>
     (\<forall>r. row \<le> r \<and> r < STRIP_SEARCH_ROWS \<and> r < int (height png) \<longrightarrow> decodeRow png r = None)"
proof (induction png row rule: topRows.induct)
  case (1 png row)
  show ?case
  proof (cases "row < STRIP_SEARCH_ROWS")
    case False
    then show ?thesis by (subst topRows.simps) auto
  next
    case True
    note lt = this
    show ?thesis
    proof (cases "row \<ge> int (height png)")
      case True
      have "topRows png row = topRows png (row + 1)"
        using lt True by (subst topRows.simps) simp
      moreover have "(\<forall>r. row \<le> r \<and> r < STRIP_SEARCH_ROWS \<and> r < int (height png) \<longrightarrow> decodeRow png r = None)
         \<longleftrightarrow> (\<forall>r. row + 1 \<le> r \<and> r < STRIP_SEARCH_ROWS \<and> r < int (height png) \<longrightarrow> decodeRow png r = None)"
        using True by (intro all_from_step_int) simp
      ultimately show ?thesis using "1.IH"(1)[OF lt True] by simp
    next
      case False
      show ?thesis
      proof (cases "decodeRow png row")
        case (Some p)
        then have "topRows png row = Some p"
          using lt False by (subst topRows.simps) simp
        then show ?thesis using Some lt False by auto
      next
        case None
        then have e: "topRows png row = topRows png (row + 1)"
          using lt False by (subst topRows.simps) simp
        have "(\<forall>r. row \<le> r \<and> r < STRIP_SEARCH_ROWS \<and> r < int (height png) \<longrightarrow> decodeRow png r = None)
         \<longleftrightarrow> (\<forall>r. row + 1 \<le> r \<and> r < STRIP_SEARCH_ROWS \<and> r < int (height png) \<longrightarrow> decodeRow png r = None)"
          using None by (intro all_from_step_int) simp
        then show ?thesis using "1.IH"(2)[OF lt False None] e by simp
      qed
    qed
  qed
qed

lemma decodeRow_shadow_valid: "decodeRow_shadow png row = Some p \<Longrightarrow> checksumValid p"
  by (auto simp: decodeRow_shadow_def Let_def split: if_splits option.splits)

lemma shadowRows_valid: "shadowRows png row = Some p \<Longrightarrow> checksumValid p"
proof (induction png row rule: shadowRows.induct)
  case (1 png row)
  then show ?case
    by (subst (asm) (2) shadowRows.simps) (auto split: if_splits option.splits dest: decodeRow_shadow_valid)
qed

lemma shadowRows_None_iff:
  "shadowRows png row = None \<longleftrightarrow> (\<forall>r. row \<le> r \<and> r < height png \<longrightarrow> decodeRow_shadow png r = None)"
proof (induction png row rule: shadowRows.induct)
  case (1 png row)
  show ?case
  proof (cases "row < height png")
    case False
    then show ?thesis by (subst shadowRows.simps) auto
  next
    case True
    note lt = this
    show ?thesis
    proof (cases "decodeRow_shadow png row")
      case (Some p)
      then have "shadowRows png row = Some p"
        using lt by (subst shadowRows.simps) simp
      then show ?thesis using Some lt by auto
    next
      case None
      then have e: "shadowRows png row = shadowRows png (row + 1)"
        using lt by (subst shadowRows.simps) simp
      have "(\<forall>r. row \<le> r \<and> r < height png \<longrightarrow> decodeRow_shadow png r = None)
       \<longleftrightarrow> (\<forall>r. row + 1 \<le> r \<and> r < height png \<longrightarrow> decodeRow_shadow png r = None)"
        using None by (intro all_from_step_nat) simp
      then show ?thesis using "1.IH"[OF lt None] e by simp
    qed
  qed
qed

lemma rowFails_None: "rowFailsChecksum png row \<Longrightarrow> decodeRow png row = None"
  by (auto simp: rowFailsChecksum_def decodeRow_def Let_def split: option.splits)

lemma rowFails_shadow_None: "rowFailsChecksum_shadow png row \<Longrightarrow> decodeRow_shadow png row = None"
  by (auto simp: rowFailsChecksum_shadow_def decodeRow_shadow_def Let_def split: option.splits)

text \<open>
  Claim C3.  Both exact-scheme decoders (the strip decoder \<open>decodeFromPNG\<close> and the shadow
  decoder) return only payloads whose \<open>checksumValid\<close> is true; they return \<open>null\<close> exactly
  when no searched row yields a valid payload; and a row on which the magic is found but
  the checksum fails makes the loop go on with the next row.
\<close>

theorem decodeFromPNG_valid_or_null:
  "(\<forall>p. decodeFromPNG png = Some p \<longrightarrow> checksumValid p) \<and>
   (decodeFromPNG png = None \<longleftrightarrow> (\<forall>r. searchedRow png r \<longrightarrow> decodeRow png r = None)) \<and>
   (\<forall>row. 0 \<le> row \<and> row < int (height png) \<and> rowFailsChecksum png row \<longrightarrow>
      bottomRows png row = bottomRows png (row + 1)) \<and>
   (\<forall>row. row < STRIP_SEARCH_ROWS \<and> row < int (height png) \<and> rowFailsChecksum png row \<longrightarrow>
      topRows png row = topRows png (row + 1)) \<and>
   (\<forall>p. decodeFromPNG_shadow png = Some p \<longrightarrow> checksumValid p) \<and>
   (decodeFromPNG_shadow png = None \<longleftrightarrow> (\<forall>r < height png. decodeRow_shadow png r = None)) \<and>
   (\<forall>row. row < height png \<and> rowFailsChecksum_shadow png row \<longrightarrow>
      shadowRows png row = shadowRows png (row + 1))"
proof (intro conjI allI impI)
  fix p assume "decodeFromPNG png = Some p"
  then show "checksumValid p"
    by (auto simp: decodeFromPNG_def split: option.splits dest: bottomRows_valid topRows_valid)
next
  show "decodeFromPNG png = None \<longleftrightarrow> (\<forall>r. searchedRow png r \<longrightarrow> decodeRow png r = None)"
  proof -
    have "decodeFromPNG png = None \<longleftrightarrow>
            bottomRows png (int (height png) - STRIP_SEARCH_ROWS) = None \<and> topRows png 0 = None"
      by (simp add: decodeFromPNG_def split: option.splits)
    also have "\<dots> \<longleftrightarrow> (\<forall>r. searchedRow png r \<longrightarrow> decodeRow png r = None)"
      unfolding bottomRows_None_iff topRows_None_iff searchedRow_def by blast
    finally show ?thesis .
  qed
next
  fix row assume "0 \<le> row \<and> row < int (height png) \<and> rowFailsChecksum png row"
  then show "bottomRows png row = bottomRows png (row + 1)"
    by (subst bottomRows.simps) (simp add: rowFails_None)
next
  fix row assume "row < STRIP_SEARCH_ROWS \<and> row < int (height png) \<and> rowFailsChecksum png row"
  then show "topRows png row = topRows png (row + 1)"
    by (subst topRows.simps) (simp add: rowFails_None)
next
  fix p assume "decodeFromPNG_shadow png = Some p"
  then show "checksumValid p"
    by (auto simp: decodeFromPNG_shadow_def dest: shadowRows_valid)
next
  show "decodeFromPNG_shadow png = None \<longleftrightarrow> (\<forall>r < height png. decodeRow_shadow png r = None)"
    by (simp add: decodeFromPNG_shadow_def shadowRows_None_iff)
next
  fix row assume "row < height png \<and> rowFailsChecksum_shadow png row"
  then show "shadowRows png row = shadowRows png (row + 1)"
    by (subst shadowRows.simps) (simp add: rowFails_shadow_None)
qed

section \<open>Evaluating the decoders on the sample images\<close>

lemmas eval_codec = parsePayload_fields viewIdEnd_def aget.simps js_slice_def relIndex_def Let_def
  bytesToString_def TextDecoder_decode_def stripBOM_def utf16_of_scalar_def trimTrailingZeros_def
  readBE32_def js_or_def js_shl_def js_ushr0_def js_and_def js_xor_def js_strict_eq_def xorReduce_def

lemma findMagic_at_0: "findMagic (Num 68 # Num 84 # Num 65 # Num 71 # rest) = 0"
  unfolding findMagic_def
  by (subst findMagic_from.simps) (simp add: magicAt_def aget.simps js_strict_eq_def MAGIC_def)

lemma stripImage_row0:
  "extractBytesFromRow (data (stripImage l c)) (width (stripImage l c)) 0
   = map Num [68, 84, 65, 71, 1, 0, 0, 0, 6, 18, 48, 48, 48, 48, 48, 48, 48, uint l, 0, 0, 0, 0,
              uint c, 0]"
  by (simp add: stripImage_def extractBytesFromRow_def bget_def upt_rec)

lemma stripImage_row1:
  "extractBytesFromRow (data (stripImage l c)) (width (stripImage l c)) 1
   = map Num [68, 84, 65, 71, 1, 0, 0, 0, 6, 18, 48, 48, 48, 48, 48, 48, 48, 0, 0, 0, 0, 0, 51, 0]"
  by (simp add: stripImage_def extractBytesFromRow_def bget_def upt_rec)

lemma stripImage_decodeRow1: "decodeRow (stripImage l c) 1 = Some stripPayload"
  unfolding decodeRow_def stripImage_row1 Let_def
  by (simp add: findMagic_at_0 eval_codec stripPayload_def)

lemma stripImage_decode:
  assumes "decodeRow (stripImage l c) 0 = None"
  shows "decodeFromPNG (stripImage l c) = Some stripPayload"
proof -
  have h: "height (stripImage l c) = 2" by (simp add: stripImage_def)
  show ?thesis
    unfolding decodeFromPNG_def using assms
    apply (simp add: h STRIP_SEARCH_ROWS_def)
    apply (subst bottomRows.simps, simp add: h stripImage_decodeRow1)+
    done
qed

lemma length_alphaRow: "length (alphaRow bits) = 4 * length bits"
  by (induction bits) (simp_all add: alphaRow_def)

lemma alphaRow_nth: "x < length bits \<Longrightarrow> alphaRow bits ! (4 * x + 3) = of_nat (254 + bits ! x)"
proof (induction bits arbitrary: x)
  case Nil
  then show ?case by simp
next
  case (Cons b bits)
  show ?case
  proof (cases x)
    case 0
    then show ?thesis by (simp add: alphaRow_def)
  next
    case (Suc y)
    then have "y < length bits" using Cons.prems by simp
    from Cons.IH [OF this] show ?thesis
      using Suc by (simp add: alphaRow_def add.commute)
  qed
qed

lemma extractBits_alphaRow:
  assumes "w \<le> length bits"
  shows "extractBitsFromRow (alphaRow bits) w 0 n
         = map (\<lambda>x. js_and (Num (uint (of_nat (254 + bits ! x) :: 8 word))) (Num 1)) [0..<min w n]"
proof -
  have "bget (alphaRow bits) ((int 0 * int w + int x) * 4 + 3) = Num (uint (of_nat (254 + bits ! x) :: 8 word))"
    if "x < min w n" for x
  proof -
    have x: "x < length bits" using that assms by simp
    have "(int 0 * int w + int x) * 4 + 3 = int (4 * x + 3)" by simp
    then show ?thesis
      using x alphaRow_nth [OF x] by (simp add: bget_def length_alphaRow nat_add_distrib nat_mult_distrib mult.commute)
  qed
  then show ?thesis
    unfolding extractBitsFromRow_def by (intro map_cong) auto
qed

lemma shadowImage_bytes:
  "bitsToBytes (extractBitsFromRow (data (shadowImage 51)) (width (shadowImage 51)) 0 512)
   = map Num [68, 84, 65, 71, 1, 0, 0, 0, 6, 18, 48, 48, 48, 48, 48, 48, 48, 0, 0, 0, 0, 0, 51]"
  unfolding shadowImage_def
  apply (simp add: bitsOfByte_def)
  apply (subst extractBits_alphaRow)
   apply simp
  apply (simp add: upt_rec js_and_def js_or_def js_shl_def)
  done

lemma shadowImage_bytes_bad:
  "bitsToBytes (extractBitsFromRow (data (shadowImage 52)) (width (shadowImage 52)) 0 512)
   = map Num [68, 84, 65, 71, 1, 0, 0, 0, 6, 18, 48, 48, 48, 48, 48, 48, 48, 0, 0, 0, 0, 0, 52]"
  unfolding shadowImage_def
  apply (simp add: bitsOfByte_def)
  apply (subst extractBits_alphaRow)
   apply simp
  apply (simp add: upt_rec js_and_def js_or_def js_shl_def)
  done

lemma hasMagic_sample: "hasMagic (Num 68 # Num 84 # Num 65 # Num 71 # rest)"
  by (simp add: hasMagic_def magicAt_def aget.simps js_strict_eq_def MAGIC_def)

lemma parsePayload_shadow_eq:
  "parsePayload_shadow bytes = (if hasMagic bytes then parsePayload bytes 0 else None)"
  by (simp add: parsePayload_shadow_def parsePayload_def)

lemma shadowImage_decodeRow: "decodeRow_shadow (shadowImage 51) 0 = Some stripPayload"
  unfolding decodeRow_shadow_def shadowImage_bytes Let_def
  by (simp add: hasMagic_sample parsePayload_shadow_eq eval_codec stripPayload_def)

lemma shadowImage_fails: "rowFailsChecksum_shadow (shadowImage 52) 0"
  unfolding rowFailsChecksum_shadow_def shadowImage_bytes_bad Let_def
  by (simp add: hasMagic_sample parsePayload_shadow_eq eval_codec)

text \<open>Row 0 of \<open>stripImage 0 52\<close> has the magic and a wrong checksum; the search goes on and
  returns the payload of row 1.  \<open>shadowImage 52\<close> has a wrong checksum in its only row,
  \<open>shadowImage 51\<close> a right one.\<close>

theorem decodeFromPNG_valid_or_null_witness:
  "rowFailsChecksum (stripImage 0 52) 0
   \<and> bottomRows (stripImage 0 52) 0 = bottomRows (stripImage 0 52) 1
   \<and> topRows (stripImage 0 52) 0 = topRows (stripImage 0 52) 1
   \<and> decodeFromPNG (stripImage 0 52) = Some stripPayload \<and> checksumValid stripPayload
   \<and> rowFailsChecksum_shadow (shadowImage 52) 0
   \<and> shadowRows (shadowImage 52) 0 = shadowRows (shadowImage 52) 1
   \<and> decodeFromPNG_shadow (shadowImage 51) = Some stripPayload"
proof -
  have f: "rowFailsChecksum (stripImage 0 52) 0"
    unfolding rowFailsChecksum_def stripImage_row0 Let_def
    by (simp add: findMagic_at_0 eval_codec)
  have d: "decodeFromPNG (stripImage 0 52) = Some stripPayload"
    by (rule stripImage_decode) (rule rowFails_None [OF f])
  have h: "height (stripImage 0 52) = 2" "height (shadowImage 52) = 1" "height (shadowImage 51) = 1"
    by (simp_all add: stripImage_def shadowImage_def)
  have s: "decodeFromPNG_shadow (shadowImage 51) = Some stripPayload"
    unfolding decodeFromPNG_shadow_def
    by (subst shadowRows.simps) (simp add: h shadowImage_decodeRow)
  note t = decodeFromPNG_valid_or_null
  have "checksumValid stripPayload"
    using t [of "stripImage 0 52"] d by blast
  moreover have "bottomRows (stripImage 0 52) 0 = bottomRows (stripImage 0 52) (0 + 1)"
    using t [of "stripImage 0 52"] f h by simp
  moreover have "topRows (stripImage 0 52) 0 = topRows (stripImage 0 52) (0 + 1)"
    using t [of "stripImage 0 52"] f h by (simp add: STRIP_SEARCH_ROWS_def)
  moreover have "shadowRows (shadowImage 52) 0 = shadowRows (shadowImage 52) (0 + 1)"
    using t [of "shadowImage 52"] shadowImage_fails h by simp
  ultimately show ?thesis using f d s shadowImage_fails by simp
qed

section \<open>A length prefix that overruns the row\<close>

text \<open>
  Claim C6.  When the magic is found at \<open>m\<close> and the length prefix \<open>n\<close> of the view
  identifier points past the end of the bytes, \<open>parsePayload\<close> still returns a record, and
  its \<open>checksumValid\<close> is false (the checksum is read beyond the array and is \<open>undefined\<close>);
  a row with such bytes returns nothing and both row loops go on with the next row.
\<close>

theorem parsePayload_overrun_not_fatal:
  assumes m: "findMagic bytes = m" "m \<noteq> - 1"
    and len: "aget bytes (Num (m + 17)) = Num n"
    and over: "int (length bytes) < m + 18 + n"
  shows "(\<exists>p. parsePayload bytes m = Some p \<and> \<not> checksumValid p) \<and>
         (\<forall>(png::PNGImage) row. bytes = extractBytesFromRow (data png) (width png) row \<longrightarrow>
             decodeRow png row = None \<and>
             (0 \<le> row \<and> row < int (height png) \<longrightarrow> bottomRows png row = bottomRows png (row + 1)) \<and>
             (row < STRIP_SEARCH_ROWS \<and> row < int (height png) \<longrightarrow> topRows png row = topRows png (row + 1)))"
proof -
  obtain p where p: "parsePayload bytes m = Some p"
    using parsePayload_total by blast
  have e: "viewIdEnd bytes m = Num (m + 18 + n)"
    by (simp add: viewIdEnd_def len)
  have "aget bytes (js_add (viewIdEnd bytes m) (Num 4)) = Undefined"
    using over by (simp add: e aget.simps)
  moreover obtain k where "xorReduce (js_slice bytes (Num m) (js_add (viewIdEnd bytes m) (Num 4))) = Num k"
    using xorReduce_Num by blast
  ultimately have nv: "\<not> checksumValid p"
    using p by (auto simp: parsePayload_fields js_strict_eq_def)
  have row: "decodeRow png row = None"
    if "bytes = extractBytesFromRow (data png) (width png) row" for png :: PNGImage and row
    using that m p nv by (simp add: decodeRow_def Let_def)
  show ?thesis
  proof (intro conjI allI impI)
    show "\<exists>p. parsePayload bytes m = Some p \<and> \<not> checksumValid p" using p nv by blast
  next
    fix png :: PNGImage and row assume "bytes = extractBytesFromRow (data png) (width png) row"
    then show "decodeRow png row = None" by (rule row)
  next
    fix png :: PNGImage and row
    assume b: "bytes = extractBytesFromRow (data png) (width png) row"
      and r: "0 \<le> row \<and> row < int (height png)"
    show "bottomRows png row = bottomRows png (row + 1)"
      using r row [OF b] by (subst bottomRows.simps) simp
  next
    fix png :: PNGImage and row
    assume b: "bytes = extractBytesFromRow (data png) (width png) row"
      and r: "row < STRIP_SEARCH_ROWS \<and> row < int (height png)"
    show "topRows png row = topRows png (row + 1)"
      using r row [OF b] by (subst topRows.simps) simp
  qed
qed


text \<open>Row 0 of \<open>stripImage 200 51\<close> announces 200 bytes of view identifier in a row of 24
  bytes.\<close>

theorem parsePayload_overrun_not_fatal_witness:
  "findMagic (extractBytesFromRow (data (stripImage 200 51)) (width (stripImage 200 51)) 0) = 0
   \<and> (\<exists>p. parsePayload (extractBytesFromRow (data (stripImage 200 51))
                          (width (stripImage 200 51)) 0) 0 = Some p \<and> \<not> checksumValid p)
   \<and> decodeRow (stripImage 200 51) 0 = None
   \<and> bottomRows (stripImage 200 51) 0 = bottomRows (stripImage 200 51) 1
   \<and> decodeFromPNG (stripImage 200 51) = Some stripPayload"
proof -
  define bytes where
    "bytes = extractBytesFromRow (data (stripImage 200 51)) (width (stripImage 200 51)) 0"
  have m: "findMagic bytes = 0" "(0::int) \<noteq> - 1"
    unfolding bytes_def stripImage_row0 by (simp_all add: findMagic_at_0)
  have len: "aget bytes (Num (0 + 17)) = Num 200"
    unfolding bytes_def stripImage_row0 by (simp add: aget.simps)
  have over: "int (length bytes) < 0 + 18 + 200"
    unfolding bytes_def stripImage_row0 by simp
  note t = parsePayload_overrun_not_fatal [OF m len over]
  have h: "height (stripImage 200 51) = 2" by (simp add: stripImage_def)
  have r: "decodeRow (stripImage 200 51) 0 = None"
    using t bytes_def by blast
  have "bottomRows (stripImage 200 51) 0 = bottomRows (stripImage 200 51) (0 + 1)"
    using t bytes_def h by simp
  moreover have "\<exists>p. parsePayload bytes 0 = Some p \<and> \<not> checksumValid p"
    using t by blast
  ultimately show ?thesis
    using m r stripImage_decode [OF r] unfolding bytes_def by simp
qed

section \<open>The decoded route hash\<close>

text \<open>
  Claim C4 (fails on the code).  The route \<open>"/settings"\<close> hashes to 2383617362, whose top
  bit is set.  \<open>buildPayload\<close> stores its four bytes, and \<open>parsePayload\<close> reassembles them
  with \<open><<\<close> and \<open>|\<close> only, without the \<open>>>> 0\<close> it applies to the timestamp: the decoded
  \<open>routeHash\<close> is the negative number \<open>2383617362 - 2^32\<close>.
\<close>

theorem routeHash_decoded_signed:
  "simpleHash (ascii ''/settings'') = Num 2383617362
   \<and> map_option routeHash (parsePayload (buildPayload
        \<lparr> viewId = ascii ''V'', route = ascii ''/settings'', sha = None, flags = None,
          timestamp = Some 0 \<rparr> 0) 0) = Some (Num (- 1911349934))"
proof -
  have a: "ascii ''/settings'' = [47, 115, 101, 116, 116, 105, 110, 103, 115]" "ascii ''V'' = [86]"
    by (simp_all add: ascii_def)
  have h: "simpleHash [47, 115, 101, 116, 116, 105, 110, 103, 115] = Num 2383617362"
    by (simp add: simpleHash_def js_or_def js_shl_def js_ushr0_def)
  show ?thesis
    by (simp add: a h parsePayload_fields buildPayload_def orElse_def Let_def be32_def js_and_def
        js_sar_def
        MAGIC_def VERSION_def padEnd7_def stringToBytes_def TextEncoder_encode_def
        utf8_of_scalar_def isHigh_def isLow_def readBE32_def aget.simps js_or_def js_shl_def)
qed

section \<open>\<open>TextDecoder\<close> after \<open>TextEncoder\<close>\<close>

lemma surrogate_pair_split:
  assumes "a < 1024" "b < 1024"
  shows "(a * 1024 + b) div 1024 = (a::nat)" "(a * 1024 + b) mod 1024 = b"
  using assms by simp_all

lemma utf16_roundtrip:
  "wellFormed s \<Longrightarrow> list_all isScalar (utf16_scalars s) \<and> concat (map utf16_of_scalar (utf16_scalars s)) = s"
proof (induction s rule: utf16_scalars.induct)
  case 1
  then show ?case by simp
next
  case (2 u)
  then show ?case by (auto simp: isHigh_def isLow_def isScalar_def utf16_of_scalar_def)
next
  case (3 u v us)
  show ?case
  proof (cases "isHigh u")
    case True
    then have lv: "isLow v" and wf: "wellFormed us" using "3.prems" by simp_all
    have ih: "list_all isScalar (utf16_scalars us) \<and> concat (map utf16_of_scalar (utf16_scalars us)) = us"
      using "3.IH"(1) True lv wf by simp
    define a where "a = u - 0xD800"
    have a: "u = 0xD800 + a" "a < 1024"
      using True unfolding isHigh_def a_def by linarith+
    define b where "b = v - 0xDC00"
    have b: "v = 0xDC00 + b" "b < 1024"
      using lv unfolding isLow_def b_def by linarith+
    define c where "c = 0x10000 + (u - 0xD800) * 0x400 + (v - 0xDC00)"
    have c': "c = 0x10000 + (a * 1024 + b)" unfolding c_def a b by simp
    have c: "isScalar c" "utf16_of_scalar c = [u, v]"
      using a(2) b(2) surrogate_pair_split[OF a(2) b(2)] unfolding c' isScalar_def utf16_of_scalar_def a(1) b(1)
      by simp_all
    show ?thesis using True lv ih c unfolding c_def by simp
  next
    case False
    then have u: "u < 0x10000" "\<not> isLow u" and wf: "wellFormed (v # us)" using "3.prems" by simp_all
    have ih: "list_all isScalar (utf16_scalars (v # us)) \<and> concat (map utf16_of_scalar (utf16_scalars (v # us))) = v # us"
      using "3.IH"(3) False u wf by simp
    have c: "isScalar u" "utf16_of_scalar u = [u]"
      using False u by (auto simp: isScalar_def utf16_of_scalar_def isHigh_def isLow_def)
    show ?thesis using False u ih c by simp
  qed
qed

lemma mod_add_mult: "q < m \<Longrightarrow> (k * m + q) mod m = (q::nat)" by simp
lemma m32: "q < 32 \<Longrightarrow> (192 + q) mod 32 = (q::nat)"
  using mod_add_mult[of q 32 6] by simp
lemma m64: "r < 64 \<Longrightarrow> (128 + (r::nat)) mod 64 = r"
  using mod_add_mult[of r 64 2] by simp
lemma m16: "q < 16 \<Longrightarrow> (224 + q) mod 16 = (q::nat)"
  using mod_add_mult[of q 16 14] by simp
lemma m8: "q < 8 \<Longrightarrow> (240 + q) mod 8 = (q::nat)"
  using mod_add_mult[of q 8 30] by simp
lemma d4096: "(c::nat) div 4096 = (c div 64) div 64"
  by (simp add: div_mult2_eq[symmetric])
lemma d262144: "(c::nat) div 262144 = (c div 4096) div 64"
  by (simp add: div_mult2_eq[symmetric])

lemma mod_window:
  fixes n :: nat
  assumes "k * m \<le> n" "n < k * m + j" "j \<le> m"
  shows "n mod m < j"
proof -
  define t where "t = n - k * m"
  have t: "n = k * m + t" "t < j" using assms unfolding t_def by linarith+
  then have "n mod m = t" using assms(3) by simp
  then show ?thesis using t by simp
qed

lemma utf8_decode_scalar:
  assumes "isScalar c"
  shows "utf8_decoder (utf8_of_scalar c @ rest) 0 0 0 0x80 0xBF = c # utf8_decoder rest 0 0 0 0x80 0xBF"
proof -
  define r where "r = c mod 64"
  have r: "r < 64" by (simp add: r_def)
  consider "c < 0x80" | "0x80 \<le> c" "c < 0x800" | "0x800 \<le> c" "c < 0x10000" | "0x10000 \<le> c" by linarith
  then show ?thesis
  proof cases
    case 1
    then show ?thesis by (simp add: utf8_of_scalar_def)
  next
    case 2
    define q where "q = c div 64"
    have q: "2 \<le> q" "q < 32" using 2 unfolding q_def by linarith+
    have e: "utf8_of_scalar c = [0xC0 + q, 0x80 + r]"
      using 2 by (simp add: utf8_of_scalar_def q_def r_def)
    have f: "q * 64 + r = c" by (simp add: q_def r_def)
    show ?thesis unfolding e using q r f by (simp add: m32 m64)
  next
    case 3
    define q where "q = c div 4096"
    define m where "m = (c div 64) mod 64"
    have q: "q < 16" using 3 unfolding q_def by linarith
    have m: "m < 64" by (simp add: m_def)
    have lo: "32 \<le> m" if "q = 0"
    proof -
      have "c < 4096" using that unfolding q_def by linarith
      then have "c div 64 < 64" "32 \<le> c div 64" using 3 by linarith+
      then show ?thesis unfolding m_def by simp
    qed
    have hi: "m < 32" if "q = 13"
    proof -
      have "0xD000 \<le> c" "c < 0xE000" using that unfolding q_def by linarith+
      then have "c < 0xD800" using assms unfolding isScalar_def by linarith
      then have "13 * 64 \<le> c div 64" "c div 64 < 13 * 64 + 32"
        using \<open>0xD000 \<le> c\<close> by linarith+
      then show ?thesis unfolding m_def by (rule mod_window) simp
    qed
    have e: "utf8_of_scalar c = [0xE0 + q, 0x80 + m, 0x80 + r]"
      using 3 by (simp add: utf8_of_scalar_def q_def r_def m_def)
    have f: "q * 64 + m = c div 64" by (simp add: q_def m_def d4096)
    have g: "c div 64 * 64 + r = c" by (simp add: r_def)
    show ?thesis unfolding e using q r m lo hi f g by (auto simp: m16 m64)
  next
    case 4
    define q where "q = c div 262144"
    define m1 where "m1 = (c div 4096) mod 64"
    define m2 where "m2 = (c div 64) mod 64"
    have c: "c < 0x110000" using assms by (simp add: isScalar_def)
    have q: "q < 5" using c unfolding q_def by linarith
    have m: "m1 < 64" "m2 < 64" by (simp_all add: m1_def m2_def)
    have lo: "16 \<le> m1" if "q = 0"
    proof -
      have "c < 262144" using that unfolding q_def by linarith
      then have "c div 4096 < 64" "16 \<le> c div 4096" using 4 by linarith+
      then show ?thesis unfolding m1_def by simp
    qed
    have hi: "m1 < 16" if "q = 4"
    proof -
      have "0x100000 \<le> c" using that unfolding q_def by linarith
      then have "4 * 64 \<le> c div 4096" "c div 4096 < 4 * 64 + 16"
        using c by linarith+
      then show ?thesis unfolding m1_def by (rule mod_window) simp
    qed
    have e: "utf8_of_scalar c = [0xF0 + q, 0x80 + m1, 0x80 + m2, 0x80 + r]"
      using 4 by (simp add: utf8_of_scalar_def q_def r_def m1_def m2_def)
    have f1: "q * 64 + m1 = c div 4096" by (simp add: q_def m1_def d262144)
    have f2: "c div 4096 * 64 + m2 = c div 64" by (simp add: m2_def d4096)
    have g: "c div 64 * 64 + r = c" by (simp add: r_def)
    show ?thesis unfolding e using q r m lo hi f1 f2 g by (auto simp: m8 m64)
  qed
qed


lemma utf8_decode_concat:
  "list_all isScalar cs \<Longrightarrow> utf8_decoder (concat (map utf8_of_scalar cs)) 0 0 0 0x80 0xBF = cs"
  by (induction cs) (simp_all add: utf8_decode_scalar)

lemma utf16_scalars_hd:
  assumes "wellFormed s" "s = [] \<or> hd s \<noteq> 0xFEFF"
  shows "stripBOM (utf16_scalars s) = utf16_scalars s"
proof (cases s rule: utf16_scalars.cases)
  case 1
  then show ?thesis by (simp add: stripBOM_def)
next
  case (2 u)
  then show ?thesis using assms by (simp add: stripBOM_def)
next
  case (3 u v us)
  then show ?thesis using assms by (auto simp: stripBOM_def isHigh_def isLow_def)
qed

lemma TextDecoder_TextEncoder:
  assumes "wellFormed s" "s = [] \<or> hd s \<noteq> 0xFEFF"
  shows "TextDecoder_decode (TextEncoder_encode s) = s"
  using utf16_roundtrip [OF assms(1)] utf16_scalars_hd [OF assms]
  by (simp add: TextDecoder_decode_def TextEncoder_encode_def utf8_decode_concat)

section \<open>Layout of the payload bytes\<close>

lemma parsePayload_layout:
  fixes vB S :: "jsval list"
  assumes body_def: "body = [m0, m1, m2, m3, v, f, h0, h1, h2, h3] @ S @
                     [Num (int (length vB))] @ vB @ [t0, t1, t2, t3]"
    and lS: "length S = 7"
  shows "parsePayload (body @ [ck]) 0 = Some
     \<lparr> version = v, flags_d = f,
       routeHash = js_or (js_or (js_or (js_shl h0 24) (js_shl h1 16)) (js_shl h2 8)) h3,
       sha_d = trimTrailingZeros (bytesToString S),
       viewId_d = bytesToString vB,
       timestamp_d = js_ushr0 (js_or (js_or (js_or (js_shl t0 24) (js_shl t1 16)) (js_shl t2 8)) t3),
       checksum = ck,
       checksumValid = js_strict_eq ck (xorReduce body) \<rparr>"
proof -
  define n where "n = length vB"
  define H where "H = [m0, m1, m2, m3, v, f, h0, h1, h2, h3]"
  define P where "P = H @ S @ [Num (int n)]"
  define bytes where "bytes = P @ vB @ [t0, t1, t2, t3, ck]"
  have b: "body @ [ck] = bytes" by (simp add: body_def bytes_def P_def H_def n_def)
  have lH: "length H = 10" by (simp add: H_def)
  have lP: "length P = 18" by (simp add: P_def lH lS)
  have len: "length bytes = 23 + n" by (simp add: bytes_def lP n_def)
  have low: "aget bytes (Num (int k)) = H ! k" if "k < 10" for k
    using that by (simp add: aget.simps bytes_def P_def nth_append lH lS)
  have l17: "aget bytes (Num 17) = Num (int n)"
    using aget.simps(1) [of bytes 17] by (simp add: len bytes_def P_def nth_append lH lS)
  have e: "viewIdEnd bytes 0 = Num (18 + int n)"
    using l17 by (simp add: viewIdEnd_def)
  have hi: "aget bytes (Num (18 + int n + int k)) = [t0, t1, t2, t3, ck] ! k" if "k < 5" for k
  proof -
    have "nat (18 + int n + int k) = 18 + n + k" by simp
    then show ?thesis using that
      by (simp add: aget.simps bytes_def nth_append lP n_def)
  qed
  have s1: "js_slice bytes (Num 10) (Num 17) = S"
    by (simp add: js_slice_def relIndex_def len bytes_def P_def lH lS)
  have s2: "js_slice bytes (Num 18) (Num (18 + int n)) = vB"
    by (simp add: js_slice_def relIndex_def len bytes_def lP n_def)
  have s3: "js_slice bytes (Num 0) (Num (22 + int n)) = body"
  proof -
    have lb: "nat (22 + int n) = length body" by (simp add: body_def n_def lS)
    have "js_slice bytes (Num 0) (Num (22 + int n)) = take (nat (22 + int n)) (body @ [ck])"
      by (simp add: js_slice_def relIndex_def len b)
    then show ?thesis unfolding lb by simp
  qed
  show ?thesis
    unfolding b parsePayload_fields
    using low [of 4] low [of 5] low [of 6] low [of 7] low [of 8] low [of 9] s1 s2 s3 e
      hi [of 0] hi [of 1] hi [of 2] hi [of 3] hi [of 4]
    by (simp add: readBE32_def H_def add.commute)
qed

lemma ascii_scalars: "\<forall>c\<in>set t. c < 128 \<Longrightarrow> utf16_scalars t = t"
  by (induction t rule: utf16_scalars.induct) (auto simp: isHigh_def isLow_def)

lemma ascii_encode: "\<forall>c\<in>set t. c < 128 \<Longrightarrow> TextEncoder_encode t = t"
proof -
  assume a: "\<forall>c\<in>set t. c < 128"
  then have "concat (map utf8_of_scalar t) = t"
    by (induction t) (simp_all add: utf8_of_scalar_def)
  then show ?thesis using a by (simp add: TextEncoder_encode_def ascii_scalars)
qed

lemma ascii_wellFormed: "\<forall>c\<in>set t. c < 128 \<Longrightarrow> wellFormed t"
  by (induction t rule: wellFormed.induct) (auto simp: isHigh_def isLow_def)

lemma ascii_decode:
  assumes "\<forall>c\<in>set t. c < 128"
  shows "TextDecoder_decode t = t"
proof -
  have "t = [] \<or> hd t \<noteq> 0xFEFF" using assms by (cases t) auto
  from TextDecoder_TextEncoder [OF ascii_wellFormed [OF assms] this]
  show ?thesis by (simp add: ascii_encode [OF assms])
qed

lemma utf8_of_scalar_bytes: "isScalar c \<Longrightarrow> \<forall>b\<in>set (utf8_of_scalar c). b < 256"
  unfolding utf8_of_scalar_def isScalar_def
  by (auto; linarith)

lemma encode_bytes: "wellFormed s \<Longrightarrow> \<forall>b\<in>set (TextEncoder_encode s). b < 256"
  using utf16_roundtrip [of s] utf8_of_scalar_bytes
  by (auto simp: TextEncoder_encode_def list_all_iff)

lemma ToUint8_bytes: "\<forall>b\<in>set bs. b < 256 \<Longrightarrow> map (ToUint8 \<circ> (Num \<circ> int)) bs = bs"
  by (induction bs) simp_all

lemma bytesToString_stringToBytes:
  assumes "wellFormed s" "s = [] \<or> hd s \<noteq> 0xFEFF"
  shows "bytesToString (map Num (stringToBytes s)) = s"
  using encode_bytes [OF assms(1)] TextDecoder_TextEncoder [OF assms]
  by (simp add: bytesToString_def stringToBytes_def ToUint8_bytes)

lemma trimTrailingZeros_pad:
  assumes "s = [] \<or> last s \<noteq> 48"
  shows "trimTrailingZeros (s @ replicate k 48) = s"
proof -
  have "dropWhile (\<lambda>c. c = 48) (replicate k (48::nat) @ rev s) = dropWhile (\<lambda>c. c = 48) (rev s)"
    by (induction k) simp_all
  moreover have "dropWhile (\<lambda>c. c = 48) (rev s) = rev s"
    using assms by (cases s rule: rev_cases) simp_all
  ultimately show ?thesis by (simp add: trimTrailingZeros_def)
qed


lemma be32_roundtrip_word:
  fixes w :: "32 word"
  shows "((push_bit 24 (signed_drop_bit 24 w AND 255) OR push_bit 16 (signed_drop_bit 16 w AND 255))
          OR push_bit 8 (signed_drop_bit 8 w AND 255)) OR (w AND 255) = w"
proof -
  have m: "(255::32 word) = mask 8" by (simp add: mask_eq_exp_minus_1)
  show ?thesis
    unfolding m
  proof (rule bit_word_eqI)
    fix n assume "n < LENGTH(32)"
    then consider "n < 8" | "8 \<le> n" "n < 16" | "16 \<le> n" "n < 24" | "24 \<le> n" "n < 32" by fastforce
    then show "bit (((push_bit 24 (signed_drop_bit 24 w AND mask 8) OR push_bit 16 (signed_drop_bit 16 w AND mask 8))
          OR push_bit 8 (signed_drop_bit 8 w AND mask 8)) OR (w AND mask 8)) n = bit w n"
      by cases (auto simp: bit_simps)
  qed
qed

lemma be32_readback:
  assumes "0 \<le> t" "t < 2 ^ 32"
  shows "js_ushr0 (js_or (js_or (js_or (js_shl (be32 (Num t) ! 0) 24) (js_shl (be32 (Num t) ! 1) 16))
            (js_shl (be32 (Num t) ! 2) 8)) (be32 (Num t) ! 3)) = Num t"
proof -
  define w where "w = (word_of_int t :: 32 word)"
  define a0 where "a0 = signed_drop_bit 24 w AND 255"
  define a1 where "a1 = signed_drop_bit 16 w AND 255"
  define a2 where "a2 = signed_drop_bit 8 w AND 255"
  define a3 where "a3 = w AND 255"
  have b: "be32 (Num t) = [Num (sint a0), Num (sint a1), Num (sint a2), Num (sint a3)]"
    unfolding be32_def js_and_def js_sar_def a0_def a1_def a2_def a3_def w_def by simp
  have r: "((push_bit 24 a0 OR push_bit 16 a1) OR push_bit 8 a2) OR a3 = w"
    unfolding a0_def a1_def a2_def a3_def by (rule be32_roundtrip_word)
  have u: "uint w = t"
    unfolding w_def by (subst uint_word_of_int) (use assms in simp)
  show ?thesis
    by (simp add: b js_ushr0_def js_or_def js_shl_def r u)
qed

lemma be32_list: "be32 x = [be32 x ! 0, be32 x ! 1, be32 x ! 2, be32 x ! 3]"
  by (simp add: be32_def)

lemma buildPayload_layout:
  "buildPayload props now =
     (let body = [Num 0x44, Num 0x54, Num 0x41, Num 0x47, Num VERSION, Num (orElse (flags props) 0),
                  be32 (simpleHash (route props)) ! 0, be32 (simpleHash (route props)) ! 1,
                  be32 (simpleHash (route props)) ! 2, be32 (simpleHash (route props)) ! 3]
                 @ map Num (stringToBytes (padEnd7 (take 7 (orElse (sha props) []))))
                 @ [Num (int (length (map Num (stringToBytes (viewId props)))))]
                 @ map Num (stringToBytes (viewId props))
                 @ [be32 (Num (orElse (timestamp props) now)) ! 0,
                    be32 (Num (orElse (timestamp props) now)) ! 1,
                    be32 (Num (orElse (timestamp props) now)) ! 2,
                    be32 (Num (orElse (timestamp props) now)) ! 3]
      in body @ [xorReduce body])"
  unfolding buildPayload_def Let_def MAGIC_def
  by (subst (1 2) be32_list [of "simpleHash (route props)"],
      subst (1 2) be32_list [of "Num (orElse (timestamp props) now)"]) simp

section \<open>Round trip of the strip payload\<close>

lemma utf16_scalars_stripBOM:
  assumes "wellFormed s"
  shows "stripBOM (utf16_scalars s) = utf16_scalars (stripBOM s)" and "wellFormed (stripBOM s)"
proof -
  show "stripBOM (utf16_scalars s) = utf16_scalars (stripBOM s)"
  proof (cases s rule: utf16_scalars.cases)
    case 1
    then show ?thesis by (simp add: stripBOM_def)
  next
    case (2 u)
    then show ?thesis by (simp add: stripBOM_def isHigh_def isLow_def)
  next
    case (3 u v us)
    then show ?thesis using assms by (auto simp: stripBOM_def isHigh_def isLow_def)
  qed
  show "wellFormed (stripBOM s)"
  proof (cases s rule: wellFormed.cases)
    case 1
    then show ?thesis by (simp add: stripBOM_def)
  next
    case (2 u)
    then show ?thesis using assms by (simp add: stripBOM_def)
  next
    case (3 u v us)
    then show ?thesis using assms by (auto simp: stripBOM_def isHigh_def split: if_splits)
  qed
qed

lemma TextDecoder_TextEncoder_stripBOM:
  assumes "wellFormed s"
  shows "TextDecoder_decode (TextEncoder_encode s) = stripBOM s"
proof -
  have "list_all isScalar (utf16_scalars s)"
    using utf16_roundtrip [OF assms] by simp
  then have "TextDecoder_decode (TextEncoder_encode s)
             = concat (map utf16_of_scalar (stripBOM (utf16_scalars s)))"
    by (simp add: TextDecoder_decode_def TextEncoder_encode_def utf8_decode_concat)
  also have "\<dots> = concat (map utf16_of_scalar (utf16_scalars (stripBOM s)))"
    by (simp only: utf16_scalars_stripBOM(1) [OF assms])
  also have "\<dots> = stripBOM s"
    using utf16_roundtrip [OF utf16_scalars_stripBOM(2) [OF assms]] by simp
  finally show ?thesis .
qed

lemma bytesToString_stringToBytes_stripBOM:
  assumes "wellFormed s"
  shows "bytesToString (map Num (stringToBytes s)) = stripBOM s"
  using encode_bytes [OF assms] TextDecoder_TextEncoder_stripBOM [OF assms]
  by (simp add: bytesToString_def stringToBytes_def ToUint8_bytes)

lemma trimTrailingZeros_padded: "trimTrailingZeros (s @ replicate k 48) = trimTrailingZeros s"
proof -
  have "dropWhile (\<lambda>c. c = 48) (replicate k (48::nat) @ rev s) = dropWhile (\<lambda>c. c = 48) (rev s)"
    by (induction k) simp_all
  then show ?thesis by (simp add: trimTrailingZeros_def)
qed

text \<open>
  What the decoder returns for every valid input.  Let the build identifier have at most
  7 ASCII characters, let the view identifier be a well-formed string, and let the
  timestamp (the caller's, or the clock's when the caller gives none) be an unsigned
  32-bit integer.  Then \<open>parsePayload\<close>, applied at offset 0 to the bytes of
  \<open>buildPayload\<close>, returns the version, the flags and the timestamp that were encoded,
  with \<open>checksumValid\<close> true; it returns the view identifier without a leading U+FEFF,
  which \<open>TextDecoder\<close> drops; and it returns the build identifier without its trailing
  \<open>0\<close> characters, the padding and any that were the caller's.  (The direct composition
  needs no bound on the flags or on the length of the view identifier.)
\<close>

lemma buildPayload_parsePayload_fields:
  assumes sha: "length (orElse (sha props) []) \<le> 7" "\<forall>c\<in>set (orElse (sha props) []). c < 128"
    and vid: "wellFormed (viewId props)"
    and ts: "0 \<le> orElse (timestamp props) now" "orElse (timestamp props) now < 2 ^ 32"
  shows "\<exists>p. parsePayload (buildPayload props now) 0 = Some p
           \<and> version p = Num VERSION
           \<and> flags_d p = Num (orElse (flags props) 0)
           \<and> sha_d p = trimTrailingZeros (orElse (sha props) [])
           \<and> viewId_d p = stripBOM (viewId props)
           \<and> timestamp_d p = Num (orElse (timestamp props) now)
           \<and> checksumValid p"
proof -
  define s where "s = orElse (sha props) []"
  define s7 where "s7 = padEnd7 (take 7 s)"
  have s7: "s7 = s @ replicate (7 - length s) 48"
    using sha(1) by (simp add: s7_def padEnd7_def s_def)
  have a7: "\<forall>c\<in>set s7. c < 128" using sha(2) by (auto simp: s7 s_def)
  have e7: "stringToBytes s7 = map int s7"
    by (simp add: stringToBytes_def ascii_encode [OF a7])
  have l7: "length (map Num (stringToBytes s7)) = 7"
    unfolding e7 using sha(1) by (simp add: s7 s_def)
  have h7: "s7 = [] \<or> hd s7 \<noteq> 0xFEFF" using a7 by (cases s7) auto
  have "bytesToString (map Num (stringToBytes s7)) = s7"
    by (rule bytesToString_stringToBytes [OF ascii_wellFormed [OF a7] h7])
  then have d7: "trimTrailingZeros (bytesToString (map Num (stringToBytes s7))) = trimTrailingZeros s"
    by (simp add: s7 trimTrailingZeros_padded)
  have dv: "bytesToString (map Num (stringToBytes (viewId props))) = stripBOM (viewId props)"
    by (rule bytesToString_stringToBytes_stripBOM [OF vid])
  obtain k where k: "\<And>body. xorReduce body = Num (k body)"
    using xorReduce_Num by metis
  show ?thesis
    unfolding buildPayload_layout Let_def s_def [symmetric] s7_def [symmetric]
    using be32_readback [OF ts]
    by (subst parsePayload_layout [OF refl l7]) (simp add: d7 dv js_strict_eq_def k)
qed

text \<open>Hence the full round trip whenever the build identifier does not end in \<open>0\<close> and the
  view identifier does not start with U+FEFF.\<close>

lemma buildPayload_parsePayload_roundtrip:
  assumes sha: "length (orElse (sha props) []) \<le> 7" "\<forall>c\<in>set (orElse (sha props) []). c < 128"
      "orElse (sha props) [] = [] \<or> last (orElse (sha props) []) \<noteq> 48"
    and vid: "wellFormed (viewId props)" "viewId props = [] \<or> hd (viewId props) \<noteq> 0xFEFF"
    and ts: "0 \<le> orElse (timestamp props) now" "orElse (timestamp props) now < 2 ^ 32"
  shows "\<exists>p. parsePayload (buildPayload props now) 0 = Some p
           \<and> version p = Num VERSION
           \<and> flags_d p = Num (orElse (flags props) 0)
           \<and> sha_d p = orElse (sha props) []
           \<and> viewId_d p = viewId props
           \<and> timestamp_d p = Num (orElse (timestamp props) now)
           \<and> checksumValid p"
proof -
  have t: "trimTrailingZeros (orElse (sha props) []) = orElse (sha props) []"
    using trimTrailingZeros_pad [OF sha(3), of 0] by simp
  have b: "stripBOM (viewId props) = viewId props"
    using vid(2) by (cases "viewId props") (simp_all add: stripBOM_def)
  show ?thesis
    using buildPayload_parsePayload_fields [OF sha(1,2) vid(1) ts] by (simp add: t b)
qed

lemma buildPayload_parsePayload_scenario:
  "\<exists>p. parsePayload (buildPayload \<lparr> viewId = ascii ''BILLING_02'', route = ascii ''/settings/billing'',
            sha = Some (ascii ''abc1234''), flags = Some 0, timestamp = Some 1700000000 \<rparr> 0) 0 = Some p
       \<and> version p = Num 1 \<and> flags_d p = Num 0 \<and> sha_d p = ascii ''abc1234''
       \<and> viewId_d p = ascii ''BILLING_02'' \<and> timestamp_d p = Num 1700000000 \<and> checksumValid p"
  using buildPayload_parsePayload_roundtrip [of "\<lparr> viewId = ascii ''BILLING_02'',
      route = ascii ''/settings/billing'', sha = Some (ascii ''abc1234''), flags = Some 0,
      timestamp = Some 1700000000 \<rparr>" 0]
  by (simp add: orElse_def ascii_def isHigh_def isLow_def VERSION_def)

lemma viewId_leading_BOM_dropped:
  "map_option viewId_d (parsePayload (buildPayload \<lparr> viewId = [0xFEFF, 65],
       route = ascii ''/settings/billing'', sha = Some (ascii ''abc1234''), flags = Some 0,
       timestamp = Some 1700000000 \<rparr> 0) 0) = Some [65]"
  by (simp add: eval_codec buildPayload_def orElse_def be32_def js_sar_def MAGIC_def VERSION_def
      padEnd7_def stringToBytes_def TextEncoder_encode_def utf8_of_scalar_def isHigh_def isLow_def
      ascii_def simpleHash_def)

text \<open>
  Claim C1 (fails on the code).  The encoder pads a short build identifier with the
  character \<open>0\<close> (\<open>padEnd(7, '0')\<close>, commented "padded with zeros if missing"), and the
  decoder removes every trailing \<open>0\<close> (\<open>replace(/0+$/, '')\<close>), also those that belong to
  the identifier.  The full 7-character identifier \<open>abc1230\<close> is not padded at all, the
  payload decodes with a valid checksum, every other field comes back as encoded, and
  the build identifier comes back as \<open>abc123\<close>.
\<close>

theorem buildPayload_parsePayload_sha_truncated:
  "map_option (\<lambda>p. (version p, flags_d p, sha_d p, viewId_d p, timestamp_d p, checksumValid p))
     (parsePayload (buildPayload \<lparr> viewId = ascii ''BILLING_02'',
        route = ascii ''/settings/billing'', sha = Some (ascii ''abc1230''), flags = Some 0,
        timestamp = Some 1700000000 \<rparr> 0) 0)
   = Some (Num 1, Num 0, ascii ''abc123'', ascii ''BILLING_02'', Num 1700000000, True)
   \<and> ascii ''abc123'' \<noteq> ascii ''abc1230''"
  by (simp add: eval_codec buildPayload_def orElse_def be32_def js_sar_def MAGIC_def VERSION_def
      padEnd7_def stringToBytes_def TextEncoder_encode_def utf8_of_scalar_def isHigh_def isLow_def
      ascii_def simpleHash_def)

section \<open>The LSB embedding changes only the lowest bit of R, G and B in three rows\<close>










lemma lsbFrame_mono: "R \<subseteq> R' \<Longrightarrow> lsbFrame R w a b \<Longrightarrow> lsbFrame R' w a b"
  by (auto simp: lsbFrame_def)








section \<open>The scan as a fold over the sweep\<close>

lemma grid_bound: "int (k * 32) < limit \<longleftrightarrow> k < nat ((limit + 31) div 32)"
  by linarith

lemma matchEntries_fold:
  "matchEntries matches tile registry threshold
   = foldl (\<lambda>m entry. if ngt (compare tile (pattern entry)) threshold
                       then recordMatch m entry (the (compare tile (pattern entry))) else m)
       matches registry"
  by (induction registry arbitrary: matches) (simp_all add: Let_def)

lemma scanX_fold:
  "scanX png registry tileSize threshold y (k * step) matches
   = foldl (\<lambda>m x. matchEntries m (extractTile (data png) (width png) x y tileSize) registry threshold)
       matches (map (\<lambda>k. k * step) [k..<nat ((int (width png) - int tileSize + 31) div 32)])"
proof (induction "nat ((int (width png) - int tileSize + 31) div 32) - k" arbitrary: k matches)
  case 0
  then have "\<not> int (k * step) < int (width png) - int tileSize"
    using grid_bound [of k "int (width png) - int tileSize"] by (simp add: step_def)
  then show ?case using 0 by (subst scanX.simps) simp
next
  case (Suc n)
  then have lt: "k < nat ((int (width png) - int tileSize + 31) div 32)" by simp
  then have c: "int (k * step) < int (width png) - int tileSize"
    using grid_bound [of k "int (width png) - int tileSize"] by (simp add: step_def)
  have n: "n = nat ((int (width png) - int tileSize + 31) div 32) - Suc k" using Suc(2) by simp
  have s: "k * step + step = Suc k * step" by simp
  show ?case
    using c lt Suc(1) [OF n]
    by (subst scanX.simps) (simp add: s upt_conv_Cons del: mult_Suc)
qed


lemma scanY_fold:
  "scanY png registry tileSize threshold (k * step) matches
   = foldl (\<lambda>m y. scanX png registry tileSize threshold y 0 m)
       matches (map (\<lambda>k. k * step) [k..<nat ((int (height png) - int tileSize + 31) div 32)])"
proof (induction "nat ((int (height png) - int tileSize + 31) div 32) - k" arbitrary: k matches)
  case 0
  then have "\<not> int (k * step) < int (height png) - int tileSize"
    using grid_bound [of k "int (height png) - int tileSize"] by (simp add: step_def)
  then show ?case using 0 by (subst scanY.simps) simp
next
  case (Suc n)
  then have lt: "k < nat ((int (height png) - int tileSize + 31) div 32)" by simp
  then have c: "int (k * step) < int (height png) - int tileSize"
    using grid_bound [of k "int (height png) - int tileSize"] by (simp add: step_def)
  have n: "n = nat ((int (height png) - int tileSize + 31) div 32) - Suc k" using Suc(2) by simp
  have s: "k * step + step = Suc k * step" by simp
  show ?case
    using c lt Suc(1) [OF n]
    by (subst scanY.simps) (simp add: s upt_conv_Cons del: mult_Suc)
qed

lemma foldl_concat_map:
  "foldl f a (concat (map g xs)) = foldl (\<lambda>b x. foldl f b (g x)) a xs"
  by (induction xs arbitrary: a) simp_all

lemma scanY_sweep:
  "scanY png registry tileSize threshold 0 [] = foldl (recordHit png tileSize threshold) [] (sweep png registry tileSize)"
proof -
  have x: "scanX png registry tileSize threshold y 0 m
      = foldl (recordHit png tileSize threshold) m
          (concat (map (\<lambda>x. map (\<lambda>entry. ((x, y), entry)) registry)
                    (gridPositions (int (width png) - int tileSize))))" for y m
    using scanX_fold [of png registry tileSize threshold y 0 m]
    by (simp add: gridPositions_def foldl_concat_map foldl_map matchEntries_fold recordHit_def
        scoreAt_def cong: if_cong)
  show ?thesis
    using scanY_fold [of png registry tileSize threshold 0 "[]"]
    by (simp add: sweep_def gridPositions_def foldl_concat_map foldl_map x [unfolded gridPositions_def])
qed

lemma keys_recordMatch:
  "map fst (recordMatch m e s)
   = (if path_r e \<in> set (map fst m) then map fst m else map fst m @ [path_r e])"
  by (induction m e s rule: recordMatch.induct) auto

lemma keys_foldl:
  "distinct (map fst m) \<Longrightarrow>
   distinct (map fst (foldl (recordHit png tileSize threshold) m cs)) \<and>
   set (map fst (foldl (recordHit png tileSize threshold) m cs))
     = set (map fst m) \<union> hits png tileSize threshold cs"
proof (induction cs arbitrary: m)
  case Nil
  then show ?case by (simp add: hits_def)
next
  case (Cons c cs)
  define m' where "m' = recordHit png tileSize threshold m c"
  have d: "distinct (map fst m')"
    using Cons.prems by (simp add: m'_def recordHit_def keys_recordMatch)
  have hc: "hits png tileSize threshold [c]
            = (if ngt (scoreAt png tileSize c) threshold then {path_r (snd c)} else {})"
    by (auto simp: hits_def)
  have km: "map fst m' = (if ngt (scoreAt png tileSize c) threshold
                          then (if path_r (snd c) \<in> set (map fst m) then map fst m
                                else map fst m @ [path_r (snd c)])
                          else map fst m)"
    by (simp add: m'_def recordHit_def keys_recordMatch)
  have s: "set (map fst m') = set (map fst m) \<union> hits png tileSize threshold [c]"
    unfolding km hc by auto
  have h: "hits png tileSize threshold (c # cs)
           = hits png tileSize threshold [c] \<union> hits png tileSize threshold cs"
    by (auto simp: hits_def)
  show ?case
    using Cons.IH [OF d] s h by (simp add: m'_def [symmetric] Un_assoc)
qed

lemma finite_hits: "finite (hits png tileSize threshold cs)"
  by (simp add: hits_def)

lemma length_insertMatch: "length (insertMatch a bs) = Suc (length bs)"
  by (induction bs) simp_all

lemma length_sortMatches: "length (sortMatches ms) = length ms"
  by (induction ms) (simp_all add: sortMatches_def length_insertMatch)

lemma length_scan:
  "length (scan png registry tileSize threshold)
   = card (hits png tileSize threshold (sweep png registry tileSize))"
proof -
  define M where "M = foldl (recordHit png tileSize threshold) [] (sweep png registry tileSize)"
  have k: "distinct (map fst M)" "set (map fst M) = hits png tileSize threshold (sweep png registry tileSize)"
    using keys_foldl [of "[]" png tileSize threshold "sweep png registry tileSize"]
    by (simp_all add: M_def)
  have "length (scan png registry tileSize threshold) = length (map fst M)"
    by (simp add: scan_def scanY_sweep length_sortMatches M_def)
  also have "\<dots> = card (set (map fst M))"
    by (rule distinct_card [OF k(1), symmetric])
  finally show ?thesis using k(2) by simp
qed

section \<open>Threshold monotonicity\<close>

text \<open>
  Claim C8.  For a fixed image, registry and tile size, raising the threshold never
  increases the number of matches that \<open>scan\<close> returns.  (The proof uses only that a
  score above the larger threshold is above the smaller one; it does not depend on how
  \<open>compare\<close> computes the score.)
\<close>

theorem scan_threshold_monotone:
  assumes "t1 \<le> t2"
  shows "length (scan png registry tileSize t2) \<le> length (scan png registry tileSize t1)"
proof -
  have "ngt s t2 \<Longrightarrow> ngt s t1" for s
    using assms by (cases s) simp_all
  then have "hits png tileSize t2 (sweep png registry tileSize)
             \<subseteq> hits png tileSize t1 (sweep png registry tileSize)"
    by (auto simp: hits_def)
  moreover have "finite (hits png tileSize t1 (sweep png registry tileSize))"
    by (rule finite_hits)
  ultimately show ?thesis
    unfolding length_scan by (rule card_mono [rotated])
qed

lemma sqrt9: "sqrt 9 = 3"
proof -
  have "sqrt 9 = sqrt (3\<^sup>2)" by simp
  also have "\<dots> = 3" by (simp del: power2_eq_square)
  finally show ?thesis .
qed

lemma checker_tile:
  "extractTile (data checkerImage) (width checkerImage) 0 0 2 = [[Some 0, Some 3], [Some 3, Some 0]]"
  by (simp add: extractTile_def checkerImage_def bget_def upt_rec Let_def)

lemma checker_score: "scoreAt checkerImage 2 ((0, 0), checkerEntry) = Some 1"
  unfolding scoreAt_def fst_conv snd_conv checker_tile
  by (simp add: compare_def checkerEntry_def elemAt_def upt_rec Let_def sqrt9)

lemma checker_sweep: "sweep checkerImage [checkerEntry] 2 = [((0, 0), checkerEntry)]"
  by (simp add: sweep_def gridPositions_def checkerImage_def step_def)

text \<open>On the checkerboard the single sampled tile correlates with the entry with score 1:
  one match at threshold 1/2, none at threshold 1.\<close>

theorem scan_threshold_monotone_witness:
  "(1 / 2 :: real) \<le> 1
   \<and> length (scan checkerImage [checkerEntry] 2 1) \<le> length (scan checkerImage [checkerEntry] 2 (1 / 2))
   \<and> length (scan checkerImage [checkerEntry] 2 (1 / 2)) = 1
   \<and> length (scan checkerImage [checkerEntry] 2 1) = 0"
proof -
  have a: "length (scan checkerImage [checkerEntry] 2 (1 / 2)) = 1"
    by (simp add: scan_def scanY_sweep checker_sweep recordHit_def checker_score length_sortMatches)
  have b: "length (scan checkerImage [checkerEntry] 2 1) = 0"
    by (simp add: scan_def scanY_sweep checker_sweep recordHit_def checker_score length_sortMatches)
  show ?thesis
    using scan_threshold_monotone [of "1 / 2" 1 checkerImage "[checkerEntry]" 2] a b by simp
qed

section \<open>The guard of \<open>extractTile\<close>\<close>

lemma extractTile_entry:
  assumes "x < tileSize" "y < tileSize"
  shows "extractTile d w startX startY tileSize ! y ! x =
     (if startX + x < w \<and> startY + y < w
      then ndiv (nadd (nadd (toNum (bget d ((int (startY + y) * int w + int (startX + x)) * 4)))
                            (toNum (bget d ((int (startY + y) * int w + int (startX + x)) * 4 + 1))))
                      (toNum (bget d ((int (startY + y) * int w + int (startX + x)) * 4 + 2))))
                (Some 3)
      else Some 0)"
  using assms by (simp add: extractTile_def Let_def)

lemma bget_in_range:
  "i < length d \<Longrightarrow> bget d (int i) = Num (uint (d ! i))"
  by (simp add: bget_def)

text \<open>
  Claim C10.  \<open>extractTile\<close> compares both coordinates with the width.  Entry \<open>(x, y)\<close> of
  the tile is the average of the R, G and B bytes of pixel \<open>(startX + x, startY + y)\<close> when
  both coordinates are below the width (and the buffer holds the pixel), and 0 when one
  of them is not.  So in an image that is higher than wide, an entry whose row
  \<open>startY + y\<close> is at or beyond the width is 0 although the pixel is in the buffer.
\<close>

theorem extractTile_width_guard:
  assumes xy: "x < tileSize" "y < tileSize"
  shows "(startX + x < w \<and> startY + y < w \<and> ((startY + y) * w + startX + x) * 4 + 2 < length d \<longrightarrow>
            extractTile d w startX startY tileSize ! y ! x
            = Some (real_of_int (uint (d ! (((startY + y) * w + startX + x) * 4))
                               + uint (d ! (((startY + y) * w + startX + x) * 4 + 1))
                               + uint (d ! (((startY + y) * w + startX + x) * 4 + 2))) / 3))
       \<and> (\<not> (startX + x < w \<and> startY + y < w) \<longrightarrow>
            extractTile d w startX startY tileSize ! y ! x = Some 0)
       \<and> (length d = 4 * w * h \<and> w < h \<and> startX + x < w \<and> w \<le> startY + y \<and> startY + y < h \<longrightarrow>
            extractTile d w startX startY tileSize ! y ! x = Some 0
            \<and> ((startY + y) * w + startX + x) * 4 + 2 < length d)"
proof (intro conjI impI)
  assume a: "startX + x < w \<and> startY + y < w \<and> ((startY + y) * w + startX + x) * 4 + 2 < length d"
  define i where "i = ((startY + y) * w + startX + x) * 4"
  have e: "(int (startY + y) * int w + int (startX + x)) * 4 = int i"
    by (simp add: i_def)
  have lt: "i + 2 < length d" using a by (simp add: i_def)
  have b: "bget d (int i) = Num (uint (d ! i))" "bget d (int i + 1) = Num (uint (d ! (i + 1)))"
    "bget d (int i + 2) = Num (uint (d ! (i + 2)))"
    using lt by (simp_all add: bget_def nat_add_distrib)
  show "extractTile d w startX startY tileSize ! y ! x
        = Some (real_of_int (uint (d ! (((startY + y) * w + startX + x) * 4))
                               + uint (d ! (((startY + y) * w + startX + x) * 4 + 1))
                               + uint (d ! (((startY + y) * w + startX + x) * 4 + 2))) / 3)"
    unfolding extractTile_entry [OF xy] e i_def [symmetric] b using a by simp
next
  assume "\<not> (startX + x < w \<and> startY + y < w)"
  then show "extractTile d w startX startY tileSize ! y ! x = Some 0"
    unfolding extractTile_entry [OF xy] by auto
next
  assume a: "length d = 4 * w * h \<and> w < h \<and> startX + x < w \<and> w \<le> startY + y \<and> startY + y < h"
  then show "extractTile d w startX startY tileSize ! y ! x = Some 0"
    unfolding extractTile_entry [OF xy] by simp
next
  assume a: "length d = 4 * w * h \<and> w < h \<and> startX + x < w \<and> w \<le> startY + y \<and> startY + y < h"
  define py where "py = startY + y"
  define px where "px = startX + x"
  have "py * w + px < py * w + w" using a by (simp add: px_def)
  also have "\<dots> = (py + 1) * w" by simp
  also have "\<dots> \<le> h * w" using a by (intro mult_right_mono) (simp_all add: py_def)
  finally have lt: "py * w + px < w * h" by (simp add: mult.commute)
  define q where "q = py * w + px"
  define r where "r = w * h"
  have "q < r" using lt by (simp add: q_def r_def)
  then have "q * 4 + 2 < 4 * r" by simp
  moreover have "length d = 4 * r" using a by (simp add: r_def)
  moreover have "((startY + y) * w + startX + x) * 4 = q * 4"
    by (simp add: q_def py_def px_def add.assoc)
  ultimately show "((startY + y) * w + startX + x) * 4 + 2 < length d"
    by simp
qed

text \<open>In the one by two image the pixel \<open>(0, 1)\<close> has the gray 6, and the tile entry for it
  is 0.\<close>

theorem extractTile_width_guard_witness:
  "extractTile (data tallImage) (width tallImage) 0 0 2 ! 0 ! 0 = Some 9
   \<and> extractTile (data tallImage) (width tallImage) 0 0 2 ! 1 ! 0 = Some 0
   \<and> data tallImage ! 4 = 6
   \<and> extractTile (data tallImage) (width tallImage) 0 0 2 ! 0 ! 1 = Some 0"
  using extractTile_width_guard [where x = 0 and y = 0 and tileSize = 2 and startX = 0
      and startY = 0 and w = "width tallImage" and d = "data tallImage" and h = "height tallImage"]
    extractTile_width_guard [where x = 0 and y = 1 and tileSize = 2 and startX = 0
      and startY = 0 and w = "width tallImage" and d = "data tallImage" and h = "height tallImage"]
    extractTile_width_guard [where x = 1 and y = 0 and tileSize = 2 and startX = 0
      and startY = 0 and w = "width tallImage" and d = "data tallImage" and h = "height tallImage"]
  by (simp add: tallImage_def)

section \<open>The grid of the scan\<close>

lemma gridPositions_mem: "p \<in> set (gridPositions limit) \<longleftrightarrow> 32 dvd p \<and> int p < limit"
proof
  assume "p \<in> set (gridPositions limit)"
  then obtain k where k: "p = k * 32" "k < nat ((limit + 31) div 32)"
    by (auto simp: gridPositions_def step_def)
  then show "32 dvd p \<and> int p < limit"
    using grid_bound [of k limit] by simp
next
  assume a: "32 dvd p \<and> int p < limit"
  then obtain k where k: "p = k * 32" by (auto simp: dvd_def)
  then have "k < nat ((limit + 31) div 32)"
    using a grid_bound [of k limit] by simp
  then show "p \<in> set (gridPositions limit)"
    using k by (auto simp: gridPositions_def step_def)
qed

lemma length_sweep:
  "length (sweep png registry tileSize)
   = length (gridPositions (int (height png) - int tileSize))
     * (length (gridPositions (int (width png) - int tileSize)) * length registry)"
  by (simp add: sweep_def length_concat comp_def sum_list_triv)

lemma sweep_mem:
  "c \<in> set (sweep png registry tileSize) \<longleftrightarrow>
     fst (fst c) \<in> set (gridPositions (int (width png) - int tileSize))
     \<and> snd (fst c) \<in> set (gridPositions (int (height png) - int tileSize))
     \<and> snd c \<in> set registry"
proof (cases c)
  case (Pair xy e)
  obtain x y where xy: "xy = (x, y)" by (cases xy)
  show ?thesis
    unfolding Pair xy sweep_def by (auto simp: image_iff)
qed

text \<open>
  Claim C9, as amended.  Whatever the tile size, \<open>scan\<close> samples the tiles whose corner
  \<open>(x, y)\<close> has both coordinates divisible by 32, with \<open>x < width - tileSize\<close> and
  \<open>y < height - tileSize\<close>: the step is the constant 32.  Every sampled tile is scored
  against every registry entry, and the result is the sorted outcome of recording all
  these scores in order: nothing ends the sweep early.
\<close>

theorem scan_exhaustive_sweep:
  "scan png registry tileSize threshold
     = sortMatches (map snd (foldl (recordHit png tileSize threshold) [] (sweep png registry tileSize)))
   \<and> (\<forall>c. c \<in> set (sweep png registry tileSize) \<longleftrightarrow>
          (32 dvd fst (fst c) \<and> int (fst (fst c)) < int (width png) - int tileSize)
          \<and> (32 dvd snd (fst c) \<and> int (snd (fst c)) < int (height png) - int tileSize)
          \<and> snd c \<in> set registry)
   \<and> length (sweep png registry tileSize)
       = length (gridPositions (int (height png) - int tileSize))
         * (length (gridPositions (int (width png) - int tileSize)) * length registry)
   \<and> step = 32"
  by (simp add: scan_def scanY_sweep sweep_mem gridPositions_mem length_sweep step_def)

text \<open>
  Claim C9 as stated fails: the step does not follow the tile size.  With tiles of 16
  pixels the step 32 is not below the tile size; in an image 100 pixels wide the sampled
  columns are 0, 32 and 64, so consecutive tiles are 16 pixels apart and never overlap.
\<close>

theorem scan_step_counterexample:
  "\<not> step < (16 :: nat)
   \<and> gridPositions (int 100 - int 16) = [0, 32, 64]
   \<and> map fst (sweep \<lparr> width = 100, height = 17, data = replicate 6800 0 \<rparr> [checkerEntry] 16)
       = [(0, 0), (32, 0), (64, 0)]"
  by (simp add: step_def gridPositions_def sweep_def upt_rec)

section \<open>Encoder and decoder patterns\<close>

lemma nth_concat_uniform:
  assumes "\<forall>xs\<in>set xss. length xs = n" "i < length xss" "j < n"
  shows "concat xss ! (i * n + j) = xss ! i ! j"
  using assms
proof (induction xss arbitrary: i)
  case Nil
  then show ?case by simp
next
  case (Cons xs xss)
  show ?case
  proof (cases i)
    case 0
    then show ?thesis using Cons.prems by (simp add: nth_append)
  next
    case (Suc k)
    then have "concat (xs # xss) ! (i * n + j) = concat xss ! (k * n + j)"
      using Cons.prems by (simp add: nth_append)
    then show ?thesis using Cons.IH [of k] Cons.prems Suc by simp
  qed
qed

lemma encoder_pixel:
  assumes "x < w" "y < h"
  shows "generatePerceptualPattern dat w h intensity ! ((y * w + x) * 4)
         = clampU8 (245 + of_int \<lfloor>combined (patternParams dat) w h x y * intensity * 255\<rfloor>)"
proof -
  define px where "px = (\<lambda>y x. let variation = \<lfloor>combined (patternParams dat) w h x y * intensity * 255\<rfloor>;
               gray = clampU8 (245 + of_int variation)
           in [gray, gray, gray, 15 :: 8 word])"
  define row where "row = (\<lambda>y. concat (map (px y) [0..<w]))"
  have lr: "length (row y) = 4 * w" for y
    by (simp add: row_def px_def Let_def length_concat comp_def sum_list_triv)
  have g: "generatePerceptualPattern dat w h intensity = concat (map row [0..<h])"
    by (simp add: generatePerceptualPattern_def row_def px_def Let_def)
  have i: "(y * w + x) * 4 = y * (4 * w) + (x * 4 + 0)" by (simp add: algebra_simps)
  have "concat (map row [0..<h]) ! (y * (4 * w) + (x * 4 + 0)) = map row [0..<h] ! y ! (x * 4 + 0)"
    by (rule nth_concat_uniform) (use assms lr in auto)
  also have "\<dots> = row y ! (x * 4 + 0)" using assms by simp
  also have "\<dots> = map (px y) [0..<w] ! x ! 0"
    unfolding row_def by (rule nth_concat_uniform) (use assms in \<open>auto simp: px_def Let_def\<close>)
  also have "\<dots> = clampU8 (245 + of_int \<lfloor>combined (patternParams dat) w h x y * intensity * 255\<rfloor>)"
    using assms by (simp add: px_def Let_def)
  finally show ?thesis unfolding g i .
qed

lemma decoder_pixel:
  assumes "x < n" "y < n"
  shows "generatePattern dat n intensity ! y ! x
         = 245 + combined (patternParams dat) n n x y * intensity * 255"
  using assms by (simp add: generatePattern_def Let_def)

lemma billing_hash: "hash billingKey = 3444878777"
  by (simp add: hash_def billingKey_def ascii_def js_or_def js_shl_def js_ushr0_def)

lemma seeds: "nextSeed 3444878777 = 143934" "nextSeed 143934 = 218791" "nextSeed 218791 = 122948"
  "nextSeed 122948 = 50085" "nextSeed 50085 = 29722" "nextSeed 29722 = 56819"
  by (simp_all add: nextSeed_def)
lemma shifts: "sar32 3444878777 8 = - 3320659" "sar32 3444878777 16 = - 12972"
  by (simp_all add: sar32_def)
lemma rems: "js_rem 3444878777 5 = 2" "js_rem (- 3320659) 5 = - 4" "js_rem (- 12972) 6 = 0"
  by (simp_all add: js_rem_def)

lemma billing_params:
  "freq1 (patternParams billingKey) = 4"
  "freq2 (patternParams billingKey) = 2"
  "freq3 (patternParams billingKey) = 12"
  "phase2 (patternParams billingKey) = 218791 / 233280 * pi * 2"
  "amp2 (patternParams billingKey) = 0.3 + 29722 / 233280 * 0.3"
  unfolding patternParams_def Let_def billing_hash seeds shifts rems
  by simp_all

text \<open>On a square grid the gray the encoder stores is the decoder's gray rounded down and
  clamped to a byte.\<close>

lemma encoder_floor_of_decoder:
  assumes "x < n" "y < n"
  shows "generatePerceptualPattern dat n n intensity ! ((y * n + x) * 4)
         = clampU8 (of_int \<lfloor>generatePattern dat n intensity ! y ! x\<rfloor>)"
proof -
  have "\<lfloor>245 + v\<rfloor> = 245 + \<lfloor>v\<rfloor>" for v :: real by linarith
  then show ?thesis
    unfolding encoder_pixel [OF assms] decoder_pixel [OF assms] by simp
qed

text \<open>
  Claim C2 (fails on the code).  For the key of the page component, tile size 64 and
  intensity 1/1000, the encoder's grid and the decoder's grid differ at \<open>(0, 0)\<close> or at
  \<open>(0, 16)\<close>: the decoder's two grays differ by \<open>0.17 * sin(phase2) * amp2\<close>, which lies
  strictly between \<open>-1\<close> and 0, while the encoder's two grays are integers.  The encoder
  applies \<open>Math.floor\<close> and stores bytes; the decoder keeps the fraction.
\<close>

theorem pattern_generators_differ:
  "\<not> (real_of_int (uint (generatePerceptualPattern billingKey 64 64 (1 / 1000) ! 0))
         = generatePattern billingKey 64 (1 / 1000) ! 0 ! 0
       \<and> real_of_int (uint (generatePerceptualPattern billingKey 64 64 (1 / 1000) ! 4096))
         = generatePattern billingKey 64 (1 / 1000) ! 16 ! 0)"
proof
  assume both: "real_of_int (uint (generatePerceptualPattern billingKey 64 64 (1 / 1000) ! 0))
         = generatePattern billingKey 64 (1 / 1000) ! 0 ! 0
       \<and> real_of_int (uint (generatePerceptualPattern billingKey 64 64 (1 / 1000) ! 4096))
         = generatePattern billingKey 64 (1 / 1000) ! 16 ! 0"
  then have eq0: "real_of_int (uint (generatePerceptualPattern billingKey 64 64 (1 / 1000) ! 0))
                  = generatePattern billingKey 64 (1 / 1000) ! 0 ! 0"
    and eq16: "real_of_int (uint (generatePerceptualPattern billingKey 64 64 (1 / 1000) ! 4096))
                  = generatePattern billingKey 64 (1 / 1000) ! 16 ! 0"
    by simp_all
  define p where "p = patternParams billingKey"
  define A where "A = sin (phase1 p) * amp1 p"
  define B where "B = sin (phase2 p) * amp2 p"
  define C where "C = sin (phase3 p) * amp3 p"
  have fr: "freq1 p = 4" "freq2 p = 2" "freq3 p = 12"
    and ph: "phase2 p = 218791 / 233280 * pi * 2"
    and am: "amp2 p = 0.3 + 29722 / 233280 * 0.3"
    unfolding p_def by (rule billing_params)+
  have e1: "real 0 / real 64 * real_of_int (freq1 p) * pi * 2 + phase1 p = phase1 p" by simp
  have e2: "real 0 / real 64 * real_of_int (freq2 p) * pi * 2 + phase2 p = phase2 p" by simp
  have e3: "(real 0 / real 64 + real 0 / real 64) * real_of_int (freq3 p) * pi * 2 + phase3 p
            = phase3 p" by simp
  have e4: "real 16 / real 64 * real_of_int (freq2 p) * pi * 2 + phase2 p = pi + phase2 p"
    by (simp add: fr)
  have e5: "(real 0 / real 64 + real 16 / real 64) * real_of_int (freq3 p) * pi * 2 + phase3 p
            = 6 * pi + phase3 p"
    by (simp add: fr)
  have s6: "sin (6 * pi + t) = sin t" for t
    by (simp add: sin_add sin_npi_numeral cos_npi_numeral)
  have c00: "combined p 64 64 0 0 = (A + B + C) / 3"
    unfolding combined_def Let_def e1 e2 e3 A_def B_def C_def by (rule refl)
  have c16: "combined p 64 64 0 16 = (A - B + C) / 3"
    unfolding combined_def Let_def e1 e4 e5 A_def B_def C_def
    by (simp add: sin_periodic_pi2 s6)
  have d0: "generatePattern billingKey 64 (1 / 1000) ! 0 ! 0 = 245 + combined p 64 64 0 0 * (1 / 1000) * 255"
    unfolding p_def by (rule decoder_pixel) simp_all
  have d16: "generatePattern billingKey 64 (1 / 1000) ! 16 ! 0 = 245 + combined p 64 64 0 16 * (1 / 1000) * 255"
    unfolding p_def by (rule decoder_pixel) simp_all
  define k where "k = uint (generatePerceptualPattern billingKey 64 64 (1 / 1000) ! 0)
                      - uint (generatePerceptualPattern billingKey 64 64 (1 / 1000) ! 4096)"
  have "real_of_int k = (combined p 64 64 0 0 - combined p 64 64 0 16) * (1 / 1000) * 255"
    unfolding k_def of_int_diff eq0 eq16 d0 d16 by (simp add: algebra_simps)
  also have "\<dots> = B * (17 / 100)"
    unfolding c00 c16 by (simp add: field_simps)
  finally have kB: "real_of_int k = B * (17 / 100)" .
  have "pi < phase2 p" "phase2 p < 2 * pi"
    unfolding ph using pi_gt_zero by simp_all
  then have sn: "sin (phase2 p) < 0" by (rule sin_lt_zero)
  have a0: "0 < amp2 p" "amp2 p < 1" unfolding am by simp_all
  have Bneg: "B < 0" unfolding B_def using sn a0 by (simp add: mult_neg_pos)
  have "\<bar>sin (phase2 p)\<bar> \<le> 1" by (rule abs_sin_le_one)
  then have "- 1 \<le> sin (phase2 p)" by linarith
  then have "- 1 * amp2 p \<le> sin (phase2 p) * amp2 p"
    using a0 by (intro mult_right_mono) simp_all
  then have Blow: "- 1 < B" unfolding B_def using a0 by linarith
  have "real_of_int k < 0" "- 1 < real_of_int k"
    unfolding kB using Bneg Blow by simp_all
  then have "k < 0" "- 1 < k" by linarith+
  then show False by linarith
qed

end
